theory Spec2Isabelle
  imports Complex_Main "HOL-Library.Multiset"
begin

unbundle bit_operations_syntax

section \<open>Python strings\<close>

text \<open>
  Strings are lists of characters. The functions below are the methods of Python's
  \<open>str\<close> that the program calls, on ASCII text: \<open>lower\<close> and \<open>upper\<close> change the
  letters \<open>A\<close> to \<open>Z\<close> and \<open>a\<close> to \<open>z\<close> only, \<open>strip\<close> removes the ASCII white
  space (code points 9 to 13, 28 to 32), digits are \<open>0\<close> to \<open>9\<close>. Characters outside
  ASCII are outside the model: a string that the validator below accepts has none.
\<close>

datatype error = IndexError | ZeroDivisionError | ValueError string

definition lower_char :: "char \<Rightarrow> char" where
  "lower_char c =
     (let n = of_char c :: nat in if 65 \<le> n \<and> n \<le> 90 then char_of (n + 32) else c)"

definition upper_char :: "char \<Rightarrow> char" where
  "upper_char c =
     (let n = of_char c :: nat in if 97 \<le> n \<and> n \<le> 122 then char_of (n - 32) else c)"

definition is_space :: "char \<Rightarrow> bool" where
  "is_space c = (let n = of_char c :: nat in (9 \<le> n \<and> n \<le> 13) \<or> (28 \<le> n \<and> n \<le> 32))"

definition is_digit_char :: "char \<Rightarrow> bool" where
  "is_digit_char c = (let n = of_char c :: nat in 48 \<le> n \<and> n \<le> 57)"

definition is_alpha_char :: "char \<Rightarrow> bool" where
  "is_alpha_char c =
     (let n = of_char c :: nat in (65 \<le> n \<and> n \<le> 90) \<or> (97 \<le> n \<and> n \<le> 122))"

definition str_lower :: "string \<Rightarrow> string" where
  "str_lower s = map lower_char s"

definition str_upper :: "string \<Rightarrow> string" where
  "str_upper s = map upper_char s"

definition str_strip :: "string \<Rightarrow> string" where
  "str_strip s = rev (dropWhile is_space (rev (dropWhile is_space s)))"

text \<open>\<open>s.split(sep)\<close> for a separator of one character: never the empty list.\<close>

fun str_split :: "char \<Rightarrow> string \<Rightarrow> string list" where
  "str_split sep [] = [[]]"
| "str_split sep (c # cs) =
     (if c = sep then [] # str_split sep cs
      else case str_split sep cs of
             [] \<Rightarrow> [[c]]
           | p # ps \<Rightarrow> (c # p) # ps)"

fun str_join :: "string \<Rightarrow> string list \<Rightarrow> string" where
  "str_join sep [] = []"
| "str_join sep [p] = p"
| "str_join sep (p # q # ps) = p @ sep @ str_join sep (q # ps)"

definition str_isdigit :: "string \<Rightarrow> bool" where
  "str_isdigit s = (s \<noteq> [] \<and> list_all is_digit_char s)"

definition str_isalpha :: "string \<Rightarrow> bool" where
  "str_isalpha s = (s \<noteq> [] \<and> list_all is_alpha_char s)"

definition startswith :: "string \<Rightarrow> string \<Rightarrow> bool" where
  "startswith s p = (take (length p) s = p)"

text \<open>\<open>int(s)\<close> for a string of decimal digits.\<close>

definition int_of_digits :: "string \<Rightarrow> nat" where
  "int_of_digits s = foldl (\<lambda>acc c. 10 * acc + (of_char c - 48)) 0 s"




section \<open>models/hotkey.py: the data of a hotkey combination\<close>

datatype HotkeyType = KEYBOARD | MOUSE | COMBINATION

datatype ModifierKey = CTRL | ALT | SHIFT | WIN

record HotkeyConfig =
  raw_value :: string
  display_name :: string
  modifiers :: "ModifierKey list"
  main_key :: string
  hotkey_type :: HotkeyType

text \<open>\<open>ModifierKey(mod_str)\<close>: the member with that value, or none (a \<open>ValueError\<close>).\<close>

definition ModifierKey_of :: "string \<Rightarrow> ModifierKey option" where
  "ModifierKey_of v =
     (if v = ''ctrl'' then Some CTRL
      else if v = ''alt'' then Some ALT
      else if v = ''shift'' then Some SHIFT
      else if v = ''win'' then Some WIN
      else None)"

fun modifier_display :: "ModifierKey \<Rightarrow> string" where
  "modifier_display CTRL = ''Ctrl''"
| "modifier_display ALT = ''Alt''"
| "modifier_display SHIFT = ''Shift''"
| "modifier_display WIN = ''Win''"

definition main_key_display :: "string \<Rightarrow> string" where
  "main_key_display key =
     (if key = ''middle'' then ''Middle Click''
      else if key = ''mouse4'' then ''Mouse 4''
      else if key = ''mouse5'' then ''Mouse 5''
      else if key = ''space'' then ''Space''
      else if key = ''tab'' then ''Tab''
      else if startswith key ''f'' \<and> str_isdigit (drop 1 key) then str_upper key
      else str_upper key)"

definition generate_display_name :: "ModifierKey list \<Rightarrow> string \<Rightarrow> string" where
  "generate_display_name mods key =
     str_join ''+'' (map modifier_display mods @ [main_key_display key])"

fun parse_modifiers :: "string list \<Rightarrow> error + ModifierKey list" where
  "parse_modifiers [] = Inr []"
| "parse_modifiers (mod_str # rest) =
     (case ModifierKey_of mod_str of
        None \<Rightarrow> Inl (ValueError (''Invalid modifier: '' @ mod_str))
      | Some m \<Rightarrow>
          (case parse_modifiers rest of
             Inl e \<Rightarrow> Inl e
           | Inr ms \<Rightarrow> Inr (m # ms)))"

definition parse :: "string \<Rightarrow> error + HotkeyConfig" where
  "parse hotkey_string =
     (let raw = str_strip (str_lower hotkey_string);
          parts = str_split CHR ''+'' raw
      in if parts = [] then Inl IndexError
         else
           let key = last parts;
               modifier_strings = butlast parts
           in case parse_modifiers modifier_strings of
                Inl e \<Rightarrow> Inl e
              | Inr mods \<Rightarrow>
                  Inr \<lparr>raw_value = raw,
                       display_name = generate_display_name mods key,
                       modifiers = mods,
                       main_key = key,
                       hotkey_type =
                         (if key \<in> set [''middle'', ''mouse4'', ''mouse5'']
                          then (if mods = [] then MOUSE else COMBINATION)
                          else (if mods = [] then KEYBOARD else COMBINATION))\<rparr>)"

text \<open>\<open>HotkeyConfig.__str__\<close> is the display name.\<close>

definition to_str :: "HotkeyConfig \<Rightarrow> string" where
  "to_str c = display_name c"

definition VALID_MODIFIERS :: "string list" where
  "VALID_MODIFIERS = [''ctrl'', ''alt'', ''shift'', ''win'']"

definition VALID_KEYS :: "string list" where
  "VALID_KEYS =
     [''f1'', ''f2'', ''f3'', ''f4'', ''f5'', ''f6'', ''f7'', ''f8'', ''f9'', ''f10'', ''f11'', ''f12'',
      ''space'', ''tab'', ''enter'', ''escape'', ''backspace'', ''delete'', ''insert'',
      ''home'', ''end'', ''pageup'', ''pagedown'', ''up'', ''down'', ''left'', ''right'',
      ''middle'', ''mouse4'', ''mouse5'']
     @ map (\<lambda>c. [c]) ''0123456789''
     @ map (\<lambda>c. [c]) ''abcdefghijklmnopqrstuvwxyz''"

definition validate_hotkey :: "string \<Rightarrow> bool" where
  "validate_hotkey hotkey_string =
     (if hotkey_string = [] \<or> str_strip hotkey_string = [] then False
      else
        let parts = str_split CHR ''+'' (str_strip (str_lower hotkey_string))
        in if length parts < 1 then False
           else if last parts \<notin> set VALID_KEYS then False
           else if \<exists>modifier \<in> set (butlast parts). modifier \<notin> set VALID_MODIFIERS then False
           else if length (butlast parts) \<noteq> length (remdups (butlast parts)) then False
           else True)"

definition is_valid :: "HotkeyConfig \<Rightarrow> bool" where
  "is_valid c = validate_hotkey (raw_value c)"

section \<open>core/hotkey\_manager.py: the state of the hotkey manager\<close>

datatype HotkeyMethod = KEYBOARD_LIB | WIN32_REGISTER | PYNPUT

text \<open>
  The fields of \<open>HotkeyManager.__init__\<close>. Objects of the surrounding libraries are
  represented by what the manager can observe of them: \<open>callback\<close> says whether a callback
  is installed, \<open>windows_api\<close> whether \<open>get_windows_api()\<close> returned an object,
  \<open>hotkey_thread\<close> holds the arguments of the thread object the manager keeps,
  \<open>key_listener\<close> and \<open>mouse_listener\<close> hold the pynput listener stored in the field,
  which has been created only or also started.

  Three fields record what exists outside the object: \<open>kb_hotkeys\<close> are the hotkeys
  this manager has registered with the keyboard library (cleared by \<open>unhook_all\<close>),
  \<open>pump_threads\<close> are the message-pump threads the manager has started and that have not
  returned, oldest first, and \<open>dispatched\<close> counts the callback threads started by
  \<open>_trigger_callback\<close>. A pump thread is \<open>registered\<close> once its \<open>RegisterHotKey\<close>
  call has succeeded; it then keeps the registration until it leaves its loop.

  Time stamps of \<open>time.time()\<close> are read as exact real numbers of seconds; the rounding
  of floating-point subtraction is not modelled. \<open>min_trigger_interval\<close> and
  \<open>method_priority\<close> are assigned once, in \<open>__init__\<close>, and are constants here.
\<close>

datatype listener = Created | Started

datatype pump_thread = PumpThread (pump_vk: nat) (pump_mods: nat) (registered: bool)

record HotkeyManager =
  current_config :: "HotkeyConfig option"
  callback :: bool
  is_listening :: bool
  last_trigger_time :: real
  active_method :: "HotkeyMethod option"
  hotkey_thread :: "(nat \<times> nat) option"
  stop_thread :: bool
  keyboard_available :: bool
  pynput_available :: bool
  windows_api :: bool
  pressed_keys :: "string set"
  pressed_mouse :: "string set"
  last_combo_state :: bool
  key_listener :: "listener option"
  mouse_listener :: "listener option"
  kb_hotkeys :: "string list"
  pump_threads :: "pump_thread list"
  dispatched :: nat

definition min_trigger_interval :: real where
  "min_trigger_interval = 0.2"


text \<open>
  \<open>stop_listening\<close> only raises the stop flag of the pump thread and forgets the thread
  object: it neither joins the thread nor unregisters its hotkey, so \<open>pump_threads\<close>
  is untouched. The listeners are stopped and forgotten, the hooks of the keyboard
  library removed.
\<close>

definition stop_listening :: "HotkeyManager \<Rightarrow> HotkeyManager" where
  "stop_listening m =
     (let m1 = m\<lparr>is_listening := False\<rparr>;
          m2 = (if hotkey_thread m1 \<noteq> None
                then m1\<lparr>stop_thread := True, hotkey_thread := None\<rparr> else m1);
          m3 = (if keyboard_available m2 then m2\<lparr>kb_hotkeys := []\<rparr> else m2);
          m4 = (if key_listener m3 \<noteq> None then m3\<lparr>key_listener := None\<rparr> else m3);
          m5 = (if mouse_listener m4 \<noteq> None then m4\<lparr>mouse_listener := None\<rparr> else m4)
      in m5\<lparr>active_method := None\<rparr>)"

text \<open>
  What the libraries answer during one call: whether \<open>import win32con\<close> succeeds,
  whether \<open>keyboard.add_hotkey\<close> accepts a hotkey string (it raises otherwise), whether
  each of the four pynput calls of \<open>_start_pynput_method\<close> completes (the two
  constructors, then the two \<open>start\<close> calls; a call that does not complete raises), and
  whether \<open>RegisterHotKey\<close> succeeds inside a pump thread. Creating and starting the
  pump thread itself is not modelled as failing.
\<close>

record HotkeyEnv =
  win32con_ok :: bool
  add_hotkey_ok :: "string \<Rightarrow> bool"
  key_listener_created :: bool
  mouse_listener_created :: bool
  key_listener_starts :: bool
  mouse_listener_starts :: bool
  register_hotkey_ok :: bool

text \<open>The constants of \<open>win32con\<close> that the manager reads.\<close>

definition VK_F1 :: nat where "VK_F1 = 112"
definition VK_SPACE :: nat where "VK_SPACE = 32"
definition VK_TAB :: nat where "VK_TAB = 9"
definition VK_RETURN :: nat where "VK_RETURN = 13"
definition VK_ESCAPE :: nat where "VK_ESCAPE = 27"
definition VK_BACK :: nat where "VK_BACK = 8"
definition VK_DELETE :: nat where "VK_DELETE = 46"
definition VK_UP :: nat where "VK_UP = 38"
definition VK_DOWN :: nat where "VK_DOWN = 40"
definition VK_LEFT :: nat where "VK_LEFT = 37"
definition VK_RIGHT :: nat where "VK_RIGHT = 39"
definition MOD_ALT :: nat where "MOD_ALT = 1"
definition MOD_CONTROL :: nat where "MOD_CONTROL = 2"
definition MOD_SHIFT :: nat where "MOD_SHIFT = 4"
definition MOD_WIN :: nat where "MOD_WIN = 8"


definition special_vk_map :: "(string \<times> nat) list" where
  "special_vk_map =
     [(''space'', VK_SPACE), (''tab'', VK_TAB), (''enter'', VK_RETURN), (''escape'', VK_ESCAPE),
      (''backspace'', VK_BACK), (''delete'', VK_DELETE), (''up'', VK_UP), (''down'', VK_DOWN),
      (''left'', VK_LEFT), (''right'', VK_RIGHT)]"

text \<open>
  \<open>_get_vk_code\<close>: the function-key branch returns only for \<open>f1\<close> to \<open>f12\<close> and falls
  through otherwise; any exception (a failing import) gives \<open>None\<close>.
\<close>

definition function_key_vk :: "string \<Rightarrow> nat option" where
  "function_key_vk key =
     (if startswith key ''f'' \<and> str_isdigit (drop 1 key)
      then (let f_num = int_of_digits (drop 1 key)
            in if 1 \<le> f_num \<and> f_num \<le> 12 then Some (VK_F1 + (f_num - 1)) else None)
      else None)"

definition get_vk_code :: "HotkeyEnv \<Rightarrow> string \<Rightarrow> nat option" where
  "get_vk_code env key =
     (if \<not> win32con_ok env then None
      else case function_key_vk key of
        Some vk \<Rightarrow> Some vk
      | None \<Rightarrow>
         (case map_of special_vk_map key of
            Some vk \<Rightarrow> Some vk
          | None \<Rightarrow>
             if length key = 1 \<and> str_isalpha key then Some (of_char (hd (str_upper key)))
             else if length key = 1 \<and> str_isdigit key then Some (of_char (hd key))
             else if key \<in> set [''middle'', ''mouse4'', ''mouse5''] then None
             else None))"

fun modifier_flag :: "ModifierKey \<Rightarrow> nat" where
  "modifier_flag CTRL = MOD_CONTROL"
| "modifier_flag ALT = MOD_ALT"
| "modifier_flag SHIFT = MOD_SHIFT"
| "modifier_flag WIN = MOD_WIN"

definition convert_for_win32 :: "HotkeyEnv \<Rightarrow> HotkeyConfig \<Rightarrow> nat option \<times> nat option" where
  "convert_for_win32 env config =
     (if \<not> win32con_ok env then (None, None)
      else
        let mod_flags = foldl (\<lambda>flags modifier. flags OR modifier_flag modifier) 0 (modifiers config);
            vk_code = get_vk_code env (main_key config)
        in case vk_code of
             None \<Rightarrow> (None, None)
           | Some vk \<Rightarrow> if vk \<noteq> 0 then (Some vk, Some mod_flags) else (None, None))"


text \<open>
  \<open>_start_win32_method\<close> answers \<open>True\<close> as soon as the thread is started: the new
  thread joins \<open>pump_threads\<close>, not yet registered.
\<close>

definition start_win32_method :: "HotkeyEnv \<Rightarrow> HotkeyManager \<Rightarrow> bool \<times> HotkeyManager" where
  "start_win32_method env m =
     (case current_config m of
        None \<Rightarrow> (False, m)
      | Some config \<Rightarrow>
          if \<not> windows_api m then (False, m)
          else
            (case convert_for_win32 env config of
               (None, mods) \<Rightarrow> (False, m)
             | (Some vk_code, mods) \<Rightarrow>
                 (let flags = (case mods of None \<Rightarrow> 0 | Some f \<Rightarrow> f)
                  in (True, m\<lparr>stop_thread := False,
                               hotkey_thread := Some (vk_code, flags),
                               pump_threads := pump_threads m @ [PumpThread vk_code flags False]\<rparr>))))"






text \<open>
  The debounce test \<open>_should_trigger\<close> at clock reading \<open>current_time\<close>, the dispatch
  \<open>_trigger_callback\<close>, and the handler \<open>on_hotkey\<close> that the keyboard-library and
  Win32 methods run on each candidate trigger.
\<close>

definition should_trigger :: "real \<Rightarrow> HotkeyManager \<Rightarrow> bool \<times> HotkeyManager" where
  "should_trigger current_time m =
     (if current_time - last_trigger_time m \<ge> min_trigger_interval
      then (True, m\<lparr>last_trigger_time := current_time\<rparr>)
      else (False, m))"

text \<open>
  \<open>_trigger_callback\<close> reads \<open>self.current_config.display_name\<close> for its message before
  it starts the thread, inside a \<open>try\<close>: without a configuration the read raises, the
  exception is caught and no thread is started.
\<close>

definition trigger_callback :: "HotkeyManager \<Rightarrow> HotkeyManager" where
  "trigger_callback m =
     (if callback m
      then (case current_config m of
              None \<Rightarrow> m
            | Some config \<Rightarrow> m\<lparr>dispatched := dispatched m + 1\<rparr>)
      else m)"

definition on_hotkey :: "real \<Rightarrow> HotkeyManager \<Rightarrow> HotkeyManager" where
  "on_hotkey current_time m =
     (let r = should_trigger current_time m
      in if fst r then trigger_callback (snd r) else snd r)"


definition pump_thread_wakes :: "real \<Rightarrow> bool \<Rightarrow> nat \<Rightarrow> HotkeyManager \<Rightarrow> HotkeyManager" where
  "pump_thread_wakes current_time is_hotkey i m =
     (if i < length (pump_threads m) \<and> registered (pump_threads m ! i) then
        let m1 = (if is_hotkey then on_hotkey current_time m else m)
        in if stop_thread m1
           then m1\<lparr>pump_threads := take i (pump_threads m1) @ drop (Suc i) (pump_threads m1)\<rparr>
           else m1
      else m)"




section \<open>models/game\_window.py\<close>

record GameWindow =
  hwnd :: int
  title :: string
  process_name :: string
  process_id :: int
  character_name :: string
  game_type :: string
  icon_path :: string
  order :: int

text \<open>
  \<open>is_valid_handle\<close> asks the operating system whether the handle is a visible window
  (and answers \<open>True\<close> off Windows, \<open>False\<close> on any exception). The answer of the
  system for a handle is the parameter \<open>live\<close>.
\<close>

definition is_valid_handle :: "(int \<Rightarrow> bool) \<Rightarrow> GameWindow \<Rightarrow> bool" where
  "is_valid_handle live w = live (hwnd w)"

section \<open>core/window\_cycler.py\<close>

text \<open>
  What a call does to the outside is kept in \<open>trace\<close>: each call of
  \<open>windows_api.activate_window\<close> with its result, and each observer callback that was
  fired. The three observer fields say whether the callback is set; an observer is taken
  to return normally. \<open>current_index\<close> is a natural number: the class only ever assigns
  it \<open>0\<close>, a remainder modulo the list length, or a \<open>window_index\<close> it has checked to
  be in range. Console output is not modelled.

  The operations take the answers of the operating system as parameters: \<open>live\<close> says
  for each handle whether it is a valid window, \<open>act\<close> whether
  \<open>activate_window\<close> brings it to the foreground. They are fixed during one call.
\<close>

datatype event =
    Activate int bool
  | WindowActivated GameWindow
  | WindowRemoved GameWindow
  | CyclingStopped

record WindowCycler =
  windows :: "GameWindow list"
  current_index :: nat
  hotkey_manager :: HotkeyManager
  cycler_windows_api :: bool
  on_window_activated :: bool
  on_window_removed :: bool
  on_cycling_stopped :: bool
  total_cycles :: int
  successful_activations :: int
  failed_activations :: int
  trace :: "event list"

definition set_windows ::
  "(int \<Rightarrow> bool) \<Rightarrow> GameWindow list \<Rightarrow> WindowCycler \<Rightarrow> bool \<times> WindowCycler" where
  "set_windows live ws s =
     (if ws = [] then (False, s)
      else let valid_windows = filter (is_valid_handle live) ws in
        if valid_windows = [] then (False, s)
        else (True, s\<lparr>windows := sort_key order valid_windows, current_index := 0\<rparr>))"

definition stop_cycling :: "WindowCycler \<Rightarrow> WindowCycler" where
  "stop_cycling s =
     (let s1 = s\<lparr>hotkey_manager := stop_listening (hotkey_manager s)\<rparr>
      in if on_cycling_stopped s1 then s1\<lparr>trace := trace s1 @ [CyclingStopped]\<rparr> else s1)"

definition activate_window ::
  "(int \<Rightarrow> bool) \<Rightarrow> GameWindow \<Rightarrow> WindowCycler \<Rightarrow> bool \<times> WindowCycler" where
  "activate_window act w s =
     (if \<not> cycler_windows_api s then (False, s)
      else (act (hwnd w), s\<lparr>trace := trace s @ [Activate (hwnd w) (act (hwnd w))]\<rparr>))"

definition remove_invalid_window :: "nat \<Rightarrow> WindowCycler \<Rightarrow> WindowCycler" where
  "remove_invalid_window index s =
     (if index < length (windows s) then
        let removed_window = windows s ! index;
            s1 = s\<lparr>windows := take index (windows s) @ drop (Suc index) (windows s)\<rparr>;
            s2 = (if current_index s1 \<ge> length (windows s1) \<and> windows s1 \<noteq> []
                  then s1\<lparr>current_index := 0\<rparr> else s1)
        in if on_window_removed s2 then s2\<lparr>trace := trace s2 @ [WindowRemoved removed_window]\<rparr>
           else s2
      else s)"

function cycle_loop ::
  "(int \<Rightarrow> bool) \<Rightarrow> (int \<Rightarrow> bool) \<Rightarrow> nat \<Rightarrow> nat \<Rightarrow> WindowCycler \<Rightarrow> error + WindowCycler" where
  "cycle_loop live act max_attempts attempts s =
     (if attempts < max_attempts then
        let s1 = (if current_index s \<ge> length (windows s) then s\<lparr>current_index := 0\<rparr> else s) in
        if current_index s1 \<ge> length (windows s1) then Inl IndexError
        else
          let window = windows s1 ! current_index s1 in
          if \<not> is_valid_handle live window then
            let s2 = remove_invalid_window (current_index s1) s1 in
            if windows s2 = [] then Inr (stop_cycling s2)
            else cycle_loop live act max_attempts attempts s2
          else
            let r = activate_window act window s1 in
            if fst r then
              let s3 = (snd r)\<lparr>successful_activations := successful_activations (snd r) + 1\<rparr> in
              if length (windows s3) = 0 then Inl ZeroDivisionError
              else
                let s4 = s3\<lparr>current_index := (current_index s3 + 1) mod length (windows s3)\<rparr>
                in Inr (if on_window_activated s4
                        then s4\<lparr>trace := trace s4 @ [WindowActivated window]\<rparr> else s4)
            else
              let s3 = (snd r)\<lparr>failed_activations := failed_activations (snd r) + 1\<rparr> in
              if length (windows s3) = 0 then Inl ZeroDivisionError
              else cycle_loop live act max_attempts (attempts + 1)
                     (s3\<lparr>current_index := (current_index s3 + 1) mod length (windows s3)\<rparr>)
      else Inr s)"
  by pat_completeness auto
termination
  by (relation "measure (\<lambda>(live, act, mx, a, s). (mx - a) + length (windows s))")
     (auto simp: remove_invalid_window_def activate_window_def Let_def split: if_splits)

declare cycle_loop.simps [simp del]

definition cycle_next ::
  "(int \<Rightarrow> bool) \<Rightarrow> (int \<Rightarrow> bool) \<Rightarrow> WindowCycler \<Rightarrow> error + WindowCycler" where
  "cycle_next live act s =
     (if windows s = [] then Inr s
      else cycle_loop live act (length (windows s)) 0 (s\<lparr>total_cycles := total_cycles s + 1\<rparr>))"

definition cycle_to_specific ::
  "(int \<Rightarrow> bool) \<Rightarrow> (int \<Rightarrow> bool) \<Rightarrow> int \<Rightarrow> WindowCycler \<Rightarrow> bool \<times> WindowCycler" where
  "cycle_to_specific live act window_index s =
     (if windows s = [] \<or> window_index < 0 \<or> window_index \<ge> int (length (windows s))
      then (False, s)
      else
        let window = windows s ! nat window_index in
        if \<not> is_valid_handle live window
        then (False, remove_invalid_window (nat window_index) s)
        else
          let r = activate_window act window s in
          if fst r then
            let s1 = (snd r)\<lparr>current_index := nat window_index\<rparr>
            in (True, if on_window_activated s1
                      then s1\<lparr>trace := trace s1 @ [WindowActivated window]\<rparr> else s1)
          else (False, snd r))"

text \<open>
  \<open>refresh_window_validity\<close> walks the indices \<open>len - 1, \<dots>, 0\<close> computed once, before the
  loop; each read \<open>self.windows[i]\<close> is checked against the current list.
\<close>

fun refresh_loop :: "(int \<Rightarrow> bool) \<Rightarrow> nat list \<Rightarrow> WindowCycler \<Rightarrow> error + WindowCycler" where
  "refresh_loop live [] s = Inr s"
| "refresh_loop live (i # is) s =
     (if i \<ge> length (windows s) then Inl IndexError
      else if \<not> is_valid_handle live (windows s ! i)
           then refresh_loop live is (remove_invalid_window i s)
           else refresh_loop live is s)"

definition refresh_window_validity ::
  "(int \<Rightarrow> bool) \<Rightarrow> WindowCycler \<Rightarrow> error + WindowCycler" where
  "refresh_window_validity live s = refresh_loop live (rev [0..<length (windows s)]) s"

fun reorder_collect :: "GameWindow list \<Rightarrow> int list \<Rightarrow> GameWindow list \<Rightarrow> GameWindow list option" where
  "reorder_collect ws [] new_windows = Some new_windows"
| "reorder_collect ws (k # ks) new_windows =
     (if 0 \<le> k \<and> k < int (length ws)
      then reorder_collect ws ks (new_windows @ [ws ! nat k])
      else None)"

definition reorder_windows :: "int list \<Rightarrow> WindowCycler \<Rightarrow> bool \<times> WindowCycler" where
  "reorder_windows new_order s =
     (if length new_order \<noteq> length (windows s) then (False, s)
      else case reorder_collect (windows s) new_order [] of
             None \<Rightarrow> (False, s)
           | Some new_windows \<Rightarrow> (True, s\<lparr>windows := new_windows, current_index := 0\<rparr>))"

text \<open>
  The first statement of the loop body of \<open>cycle_next\<close>, named for the proofs:
  a cursor past the end of the list goes back to 0.
\<close>

definition wrap_index :: "WindowCycler \<Rightarrow> WindowCycler" where
  "wrap_index s = (if current_index s \<ge> length (windows s) then s\<lparr>current_index := 0\<rparr> else s)"

text \<open>
  The invariant of the cursor: it indexes the list whenever the list is not empty.
\<close>

definition cursor_ok :: "WindowCycler \<Rightarrow> bool" where
  "cursor_ok s = (windows s \<noteq> [] \<longrightarrow> current_index s < length (windows s))"

subsection \<open>Freshly constructed objects and sample data\<close>

text \<open>
  \<open>HotkeyManager.__init__\<close> and \<open>WindowCycler.__init__\<close>; the three flags say which of
  the keyboard library, pynput and the Windows API could be loaded.
\<close>

definition new_manager :: "bool \<Rightarrow> bool \<Rightarrow> bool \<Rightarrow> HotkeyManager" where
  "new_manager kb pn api =
     \<lparr>current_config = None, callback = False, is_listening = False, last_trigger_time = 0,
      active_method = None, hotkey_thread = None, stop_thread = False,
      keyboard_available = kb, pynput_available = pn, windows_api = api,
      pressed_keys = {}, pressed_mouse = {}, last_combo_state = False,
      key_listener = None, mouse_listener = None, kb_hotkeys = [], pump_threads = [],
      dispatched = 0\<rparr>"

definition new_cycler :: "bool \<Rightarrow> bool \<Rightarrow> bool \<Rightarrow> WindowCycler" where
  "new_cycler kb pn api =
     \<lparr>windows = [], current_index = 0, hotkey_manager = new_manager kb pn api,
      cycler_windows_api = api, on_window_activated = False, on_window_removed = False,
      on_cycling_stopped = False, total_cycles = 0, successful_activations = 0,
      failed_activations = 0, trace = []\<rparr>"

definition game_window :: "int \<Rightarrow> int \<Rightarrow> GameWindow" where
  "game_window h k =
     \<lparr>hwnd = h, title = ''Dofus'', process_name = ''Dofus.exe'', process_id = 4000 + h,
      character_name = '''', game_type = ''dofus'', icon_path = '''', order = k\<rparr>"

definition all_live :: "int \<Rightarrow> bool" where
  "all_live h = True"

definition live_except_2 :: "int \<Rightarrow> bool" where
  "live_except_2 h = (h \<noteq> 2)"

definition act_always :: "int \<Rightarrow> bool" where
  "act_always h = True"

definition act_never :: "int \<Rightarrow> bool" where
  "act_never h = False"

definition combo_ctrl_mouse5 :: HotkeyConfig where
  "combo_ctrl_mouse5 =
     \<lparr>raw_value = ''ctrl+mouse5'', display_name = ''Ctrl+Mouse 5'', modifiers = [CTRL],
      main_key = ''mouse5'', hotkey_type = COMBINATION\<rparr>"

definition combo_f5 :: HotkeyConfig where
  "combo_f5 =
     \<lparr>raw_value = ''f5'', display_name = ''F5'', modifiers = [],
      main_key = ''f5'', hotkey_type = KEYBOARD\<rparr>"


text \<open>
  Sample answers of the libraries: the keyboard library refuses every registration and
  all else works; the same with the mouse listener failing to start; the same with
  \<open>RegisterHotKey\<close> failing; and nothing working at all.
\<close>

definition env_pynput_only :: HotkeyEnv where
  "env_pynput_only =
     \<lparr>win32con_ok = True, add_hotkey_ok = (\<lambda>hotkey. False),
      key_listener_created = True, mouse_listener_created = True,
      key_listener_starts = True, mouse_listener_starts = True,
      register_hotkey_ok = True\<rparr>"





text \<open>A configured manager: a combination and a callback are set, nothing is armed.\<close>

definition manager_configured :: HotkeyManager where
  "manager_configured =
     (new_manager True True True)\<lparr>current_config := Some combo_f5, callback := True\<rparr>"


section \<open>Lemmas about the retry loop\<close>

lemma remove_invalid_window_cursor_ok:
  "index < length (windows s) \<Longrightarrow> cursor_ok (remove_invalid_window index s)"
  by (auto simp: remove_invalid_window_def cursor_ok_def Let_def)

lemma remove_invalid_window_length:
  "index < length (windows s) \<Longrightarrow>
   length (windows (remove_invalid_window index s)) = length (windows s) - 1"
  by (auto simp: remove_invalid_window_def Let_def)

lemma remove_invalid_window_out_of_range:
  "\<not> index < length (windows s) \<Longrightarrow> remove_invalid_window index s = s"
  by (simp add: remove_invalid_window_def)

lemma stop_cycling_windows:
  "windows (stop_cycling s) = windows s" "current_index (stop_cycling s) = current_index s"
  by (simp_all add: stop_cycling_def Let_def)

lemma activate_window_windows:
  "windows (snd (activate_window act w s)) = windows s"
  "current_index (snd (activate_window act w s)) = current_index s"
  by (simp_all add: activate_window_def)

lemma wrap_index_simps:
  "windows (wrap_index s) = windows s"
  "windows s \<noteq> [] \<Longrightarrow> current_index (wrap_index s) < length (windows s)"
  "current_index s < length (windows s) \<Longrightarrow> wrap_index s = s"
  by (auto simp: wrap_index_def)

lemma cycle_loop_done:
  "\<not> a < mx \<Longrightarrow> cycle_loop live act mx a s = Inr s"
  by (subst cycle_loop.simps) simp

lemma cycle_loop_invalid:
  assumes "a < mx" "windows s \<noteq> []"
    and "\<not> is_valid_handle live (windows s ! current_index (wrap_index s))"
  shows "cycle_loop live act mx a s =
           (if windows (remove_invalid_window (current_index (wrap_index s)) (wrap_index s)) = []
            then Inr (stop_cycling (remove_invalid_window (current_index (wrap_index s)) (wrap_index s)))
            else cycle_loop live act mx a
                   (remove_invalid_window (current_index (wrap_index s)) (wrap_index s)))"
  using assms wrap_index_simps(2)[OF assms(2)]
  by (subst cycle_loop.simps) (simp add: Let_def wrap_index_simps(1) flip: wrap_index_def)

lemma cycle_loop_success:
  assumes "a < mx" "windows s \<noteq> []"
    and "is_valid_handle live (windows s ! current_index (wrap_index s))"
    and "fst (activate_window act (windows s ! current_index (wrap_index s)) (wrap_index s))"
  shows "cycle_loop live act mx a s =
           Inr (let w = windows s ! current_index (wrap_index s);
                    s2 = snd (activate_window act w (wrap_index s));
                    s4 = s2\<lparr>successful_activations := successful_activations s2 + 1,
                            current_index := (current_index (wrap_index s) + 1) mod length (windows s)\<rparr>
                in if on_window_activated s4
                   then s4\<lparr>trace := trace s4 @ [WindowActivated w]\<rparr> else s4)"
  using assms wrap_index_simps(2)[OF assms(2)]
  by (subst cycle_loop.simps)
     (simp add: Let_def wrap_index_simps(1) activate_window_windows flip: wrap_index_def)

lemma cycle_loop_failure:
  assumes "a < mx" "windows s \<noteq> []"
    and "is_valid_handle live (windows s ! current_index (wrap_index s))"
    and "\<not> fst (activate_window act (windows s ! current_index (wrap_index s)) (wrap_index s))"
  shows "cycle_loop live act mx a s =
           cycle_loop live act mx (a + 1)
             (let w = windows s ! current_index (wrap_index s);
                  s2 = snd (activate_window act w (wrap_index s))
              in s2\<lparr>failed_activations := failed_activations s2 + 1,
                    current_index := (current_index (wrap_index s) + 1) mod length (windows s)\<rparr>)"
  using assms wrap_index_simps(2)[OF assms(2)]
  by (subst cycle_loop.simps)
     (simp add: Let_def wrap_index_simps(1) activate_window_windows flip: wrap_index_def)


lemma cycle_loop_returns:
  "windows s \<noteq> [] \<Longrightarrow>
   \<exists>s'. cycle_loop live act mx a s = Inr s' \<and> (cursor_ok s \<or> a < mx \<longrightarrow> cursor_ok s')"
proof (induction live act mx a s rule: cycle_loop.induct)
  case (1 live act mx a s)
  note ne = \<open>windows s \<noteq> []\<close>
  define s1 where "s1 = (if length (windows s) \<le> current_index s then s\<lparr>current_index := 0\<rparr> else s)"
  define w where "w = windows s1 ! current_index s1"
  have s1: "s1 = wrap_index s"
    by (simp add: s1_def wrap_index_def)
  have ws1: "windows s1 = windows s"
    by (simp add: s1 wrap_index_simps)
  have in_range: "current_index s1 < length (windows s1)"
    using ne by (simp add: s1 wrap_index_simps)
  then have nle: "\<not> length (windows s1) \<le> current_index s1"
    by simp
  show ?case
  proof (cases "a < mx")
    case False
    then show ?thesis by (simp add: cycle_loop_done)
  next
    case lt: True
    show ?thesis
    proof (cases "is_valid_handle live w")
      case invalid: False
      define s2 where "s2 = remove_invalid_window (current_index s1) s1"
      have ok2: "cursor_ok s2"
        unfolding s2_def using in_range by (rule remove_invalid_window_cursor_ok)
      have step: "cycle_loop live act mx a s =
                    (if windows s2 = [] then Inr (stop_cycling s2) else cycle_loop live act mx a s2)"
        using cycle_loop_invalid [OF lt ne, of live act] invalid
        by (simp add: s2_def w_def s1 wrap_index_simps(1))
      show ?thesis
      proof (cases "windows s2 = []")
        case True
        then show ?thesis
          by (simp add: step cursor_ok_def stop_cycling_windows)
      next
        case False
        have "\<exists>s'. cycle_loop live act mx a s2 = Inr s' \<and> (cursor_ok s2 \<or> a < mx \<longrightarrow> cursor_ok s')"
          using lt s1_def nle w_def invalid s2_def False False by (rule "1.IH"(1))
        then show ?thesis
          using step False ok2 by auto
      qed
    next
      case valid: True
      define r where "r = activate_window act w s1"
      show ?thesis
      proof (cases "fst r")
        case True
        have "cycle_loop live act mx a s =
           Inr (let w = windows s ! current_index (wrap_index s);
                    s2 = snd (activate_window act w (wrap_index s));
                    s4 = s2\<lparr>successful_activations := successful_activations s2 + 1,
                            current_index := (current_index (wrap_index s) + 1) mod length (windows s)\<rparr>
                in if on_window_activated s4
                   then s4\<lparr>trace := trace s4 @ [WindowActivated w]\<rparr> else s4)"
          using valid True
          by (intro cycle_loop_success [OF lt ne]) (simp_all add: r_def w_def s1 wrap_index_simps(1))
        then show ?thesis
          using ne by (simp add: Let_def cursor_ok_def activate_window_windows wrap_index_simps(1))
      next
        case False
        define s3 where "s3 = (snd r)\<lparr>failed_activations := failed_activations (snd r) + 1\<rparr>"
        define s4 where "s4 = s3\<lparr>current_index := (current_index s3 + 1) mod length (windows s3)\<rparr>"
        have ws3: "windows s3 = windows s" "current_index s3 = current_index s1"
          by (simp_all add: s3_def r_def activate_window_windows ws1)
        have ne3: "length (windows s3) \<noteq> 0"
          using ne by (simp add: ws3)
        have ne4: "windows s4 \<noteq> []" and ok4: "cursor_ok s4"
          using ne by (simp_all add: s4_def ws3 cursor_ok_def)
        have step: "cycle_loop live act mx a s = cycle_loop live act mx (a + 1) s4"
          using cycle_loop_failure [OF lt ne, of live act] valid False
          by (simp add: Let_def s4_def s3_def r_def w_def s1 wrap_index_simps(1) activate_window_windows)
        have nn: "\<not> \<not> is_valid_handle live w"
          using valid by simp
        have "\<exists>s'. cycle_loop live act mx (a + 1) s4 = Inr s' \<and> (cursor_ok s4 \<or> a + 1 < mx \<longrightarrow> cursor_ok s')"
          unfolding s4_def
          using lt s1_def nle w_def nn r_def False s3_def ne3 ne4 [unfolded s4_def]
          by (rule "1.IH"(2))
        then show ?thesis
          using step ok4 by (auto simp: s4_def)
      qed
    qed
  qed
qed

lemma cycle_next_returns:
  "\<exists>s'. cycle_next live act s = Inr s' \<and> cursor_ok s'"
proof (cases "windows s = []")
  case True
  then show ?thesis by (simp add: cycle_next_def cursor_ok_def)
next
  case False
  then show ?thesis
    using cycle_loop_returns [of "s\<lparr>total_cycles := total_cycles s + 1\<rparr>" live act "length (windows s)" 0]
    by (simp add: cycle_next_def)
qed


lemma refresh_loop_returns:
  "k \<le> length (windows s) \<Longrightarrow> cursor_ok s \<Longrightarrow>
   \<exists>s'. refresh_loop live (rev [0..<k]) s = Inr s' \<and> cursor_ok s'"
proof (induction k arbitrary: s)
  case 0
  then show ?case by simp
next
  case (Suc k)
  then have lt: "k < length (windows s)" by simp
  show ?case
  proof (cases "is_valid_handle live (windows s ! k)")
    case True
    then show ?thesis
      using Suc.IH [of s] Suc.prems lt by simp
  next
    case False
    have "k \<le> length (windows (remove_invalid_window k s))"
      using lt by (simp add: remove_invalid_window_length)
    moreover have "cursor_ok (remove_invalid_window k s)"
      using lt by (rule remove_invalid_window_cursor_ok)
    ultimately show ?thesis
      using Suc.IH [of "remove_invalid_window k s"] False lt by simp
  qed
qed

lemma set_windows_cursor_ok:
  "cursor_ok s \<Longrightarrow> cursor_ok (snd (set_windows live ws s))"
  by (simp add: set_windows_def cursor_ok_def Let_def)

lemma cycle_to_specific_cursor_ok:
  assumes "cursor_ok s"
  shows "cursor_ok (snd (cycle_to_specific live act i s))"
proof (cases "windows s = [] \<or> i < 0 \<or> i \<ge> int (length (windows s))")
  case True
  then show ?thesis
    using assms by (simp add: cycle_to_specific_def)
next
  case False
  then have lt: "nat i < length (windows s)" by auto
  show ?thesis
  proof (cases "is_valid_handle live (windows s ! nat i)")
    case invalid: False
    then show ?thesis
      using False remove_invalid_window_cursor_ok [OF lt]
      by (simp add: cycle_to_specific_def)
  next
    case True
    then show ?thesis
      using False lt assms
      by (simp add: cycle_to_specific_def Let_def activate_window_windows cursor_ok_def)
  qed
qed

lemma reorder_collect_length:
  "reorder_collect ws ks acc = Some new_windows \<Longrightarrow>
   length new_windows = length acc + length ks"
  by (induction ks arbitrary: acc) (auto split: if_splits)

lemma reorder_windows_cursor_ok:
  "cursor_ok s \<Longrightarrow> cursor_ok (snd (reorder_windows new_order s))"
  by (auto simp: reorder_windows_def cursor_ok_def split: option.splits
        dest: reorder_collect_length)

lemma cycle_loop_all_fail:
  assumes "mx - a = k"
    and "windows s \<noteq> []"
    and "\<forall>w\<in>set (windows s). is_valid_handle live w"
    and "\<forall>w\<in>set (windows s). \<not> (cycler_windows_api s \<and> act (hwnd w))"
    and "current_index s < length (windows s)"
  shows "cycle_loop live act mx a s =
           Inr (s\<lparr>failed_activations := failed_activations s + int k,
                  current_index := (current_index s + k) mod length (windows s),
                  trace := trace s @
                    (if cycler_windows_api s
                     then map (\<lambda>j. Activate (hwnd (windows s ! ((current_index s + j) mod length (windows s)))) False) [0..<k]
                     else [])\<rparr>)"
  using assms
proof (induction k arbitrary: a s)
  case 0
  then show ?case by (simp add: cycle_loop_done)
next
  case (Suc k)
  let ?N = "length (windows s)"
  let ?c = "current_index s"
  let ?w = "windows s ! ?c"
  have lt: "a < mx" using Suc.prems(1) by simp
  have ne: "windows s \<noteq> []" by fact
  have wr: "wrap_index s = s"
    using Suc.prems(5) by (simp add: wrap_index_simps)
  have mem: "?w \<in> set (windows s)"
    using Suc.prems(5) by simp
  have valid: "is_valid_handle live (windows s ! current_index (wrap_index s))"
    using mem Suc.prems(3) by (simp add: wr)
  have nact: "\<not> (cycler_windows_api s \<and> act (hwnd ?w))"
    using mem Suc.prems(4) by blast
  have fail: "\<not> fst (activate_window act (windows s ! current_index (wrap_index s)) (wrap_index s))"
    using nact by (simp add: wr activate_window_def)
  define s' where "s' = (snd (activate_window act ?w s))
       \<lparr>failed_activations := failed_activations (snd (activate_window act ?w s)) + 1,
        current_index := (?c + 1) mod ?N\<rparr>"
  have step: "cycle_loop live act mx a s = cycle_loop live act mx (a + 1) s'"
    using cycle_loop_failure [OF lt ne valid fail] by (simp add: Let_def wr s'_def)
  have s'_eq: "s' = s\<lparr>failed_activations := failed_activations s + 1,
                     current_index := (?c + 1) mod ?N,
                     trace := trace s @ (if cycler_windows_api s then [Activate (hwnd ?w) False] else [])\<rparr>"
    using nact by (simp add: s'_def activate_window_def)
  have ws': "windows s' = windows s" "cycler_windows_api s' = cycler_windows_api s"
    "current_index s' = (?c + 1) mod ?N" "failed_activations s' = failed_activations s + 1"
    "trace s' = trace s @ (if cycler_windows_api s then [Activate (hwnd ?w) False] else [])"
    by (simp_all add: s'_eq)
  have IH: "cycle_loop live act mx (a + 1) s' =
           Inr (s'\<lparr>failed_activations := failed_activations s' + int k,
                  current_index := (current_index s' + k) mod length (windows s'),
                  trace := trace s' @
                    (if cycler_windows_api s'
                     then map (\<lambda>j. Activate (hwnd (windows s' ! ((current_index s' + j) mod length (windows s')))) False) [0..<k]
                     else [])\<rparr>)"
    using Suc.prems ne by (intro Suc.IH) (simp_all add: ws')
  have idx: "(Suc ?c mod ?N + j) mod ?N = Suc (?c + j) mod ?N" for j
    by (metis add_Suc mod_add_left_eq)
  have upt: "map f [0..<Suc k] = f 0 # map (\<lambda>j. f (Suc j)) [0..<k]" for f :: "nat \<Rightarrow> event"
    by (simp add: map_upt_Suc del: upt_Suc)
  show ?case
    unfolding step IH
    using Suc.prems(5)
    by (simp add: ws' idx upt add.assoc del: upt_Suc) (simp add: s'_eq)
qed


lemma rotate_as_map:
  "c < length xs \<Longrightarrow> map (\<lambda>j. xs ! ((c + j) mod length xs)) [0..<length xs] = rotate c xs"
  by (rule nth_equalityI) (simp_all add: nth_rotate)

lemma wrap_index_idem:
  "wrap_index (wrap_index s) = wrap_index s"
  by (auto simp: wrap_index_def)

lemma cycle_loop_wrap:
  assumes "a < mx" "windows s \<noteq> []"
  shows "cycle_loop live act mx a (wrap_index s) = cycle_loop live act mx a s"
proof -
  let ?t = "wrap_index s"
  have ne: "windows ?t \<noteq> []"
    using assms(2) by (simp add: wrap_index_simps(1))
  show ?thesis
  proof (cases "is_valid_handle live (windows s ! current_index (wrap_index s))")
    case False
    then have inv': "\<not> is_valid_handle live (windows ?t ! current_index (wrap_index ?t))"
      by (simp add: wrap_index_idem wrap_index_simps(1))
    show ?thesis
      by (simp only: cycle_loop_invalid [OF assms False] cycle_loop_invalid [OF assms(1) ne inv']
          wrap_index_idem)
  next
    case valid: True
    then have valid': "is_valid_handle live (windows ?t ! current_index (wrap_index ?t))"
      by (simp add: wrap_index_idem wrap_index_simps(1))
    show ?thesis
    proof (cases "fst (activate_window act (windows s ! current_index (wrap_index s)) (wrap_index s))")
      case True
      then have ok': "fst (activate_window act (windows ?t ! current_index (wrap_index ?t)) (wrap_index ?t))"
        by (simp add: wrap_index_idem wrap_index_simps(1))
      show ?thesis
        by (simp only: cycle_loop_success [OF assms valid True]
            cycle_loop_success [OF assms(1) ne valid' ok'] wrap_index_idem wrap_index_simps(1))
    next
      case False
      then have no': "\<not> fst (activate_window act (windows ?t ! current_index (wrap_index ?t)) (wrap_index ?t))"
        by (simp add: wrap_index_idem wrap_index_simps(1))
      show ?thesis
        by (simp only: cycle_loop_failure [OF assms valid False]
            cycle_loop_failure [OF assms(1) ne valid' no'] wrap_index_idem wrap_index_simps(1))
    qed
  qed
qed

lemma cycle_loop_first_success:
  assumes "0 < mx" "current_index s < length (windows s)"
    and "is_valid_handle live (windows s ! current_index s)"
    and "cycler_windows_api s" "act (hwnd (windows s ! current_index s))"
  shows "cycle_loop live act mx 0 s =
           Inr (s\<lparr>successful_activations := successful_activations s + 1,
                  current_index := (current_index s + 1) mod length (windows s),
                  trace := trace s @ Activate (hwnd (windows s ! current_index s)) True #
                    (if on_window_activated s then [WindowActivated (windows s ! current_index s)] else [])\<rparr>)"
proof -
  have ne: "windows s \<noteq> []" using assms(2) by auto
  have wr: "wrap_index s = s" using assms(2) by (simp add: wrap_index_simps)
  have v: "is_valid_handle live (windows s ! current_index (wrap_index s))"
    using assms(3) by (simp add: wr)
  have ok: "fst (activate_window act (windows s ! current_index (wrap_index s)) (wrap_index s))"
    using assms(4,5) by (simp add: wr activate_window_def)
  show ?thesis
    using assms(4,5)
    by (simp add: cycle_loop_success [OF assms(1) ne v ok] wr Let_def activate_window_def)
qed

lemma cycle_loop_first_invalid:
  assumes "a < mx" "current_index s < length (windows s)"
    and "\<not> is_valid_handle live (windows s ! current_index s)"
    and "windows (remove_invalid_window (current_index s) s) \<noteq> []"
  shows "cycle_loop live act mx a s =
           cycle_loop live act mx a (remove_invalid_window (current_index s) s)"
proof -
  have ne: "windows s \<noteq> []" using assms(2) by auto
  have wr: "wrap_index s = s" using assms(2) by (simp add: wrap_index_simps)
  have v: "\<not> is_valid_handle live (windows s ! current_index (wrap_index s))"
    using assms(3) by (simp add: wr)
  show ?thesis
    using assms(4) by (simp add: cycle_loop_invalid [OF assms(1) ne v] wr)
qed

lemma cycle_next_activates_cursor:
  assumes "current_index s < length (windows s)"
    and "is_valid_handle live (windows s ! current_index s)"
    and "cycler_windows_api s" "act (hwnd (windows s ! current_index s))"
  shows "cycle_next live act s =
           Inr (s\<lparr>total_cycles := total_cycles s + 1,
                  successful_activations := successful_activations s + 1,
                  current_index := (current_index s + 1) mod length (windows s),
                  trace := trace s @ Activate (hwnd (windows s ! current_index s)) True #
                    (if on_window_activated s then [WindowActivated (windows s ! current_index s)] else [])\<rparr>)"
proof -
  let ?s0 = "s\<lparr>total_cycles := total_cycles s + 1\<rparr>"
  have ne: "windows s \<noteq> []" using assms(1) by auto
  have "cycle_loop live act (length (windows s)) 0 ?s0 =
           Inr (?s0\<lparr>successful_activations := successful_activations ?s0 + 1,
                  current_index := (current_index ?s0 + 1) mod length (windows ?s0),
                  trace := trace ?s0 @ Activate (hwnd (windows ?s0 ! current_index ?s0)) True #
                    (if on_window_activated ?s0 then [WindowActivated (windows ?s0 ! current_index ?s0)] else [])\<rparr>)"
    using assms ne by (intro cycle_loop_first_success) simp_all
  then show ?thesis
    using ne by (simp add: cycle_next_def)
qed

lemma cycle_next_prunes_then_activates:
  assumes "current_index s < length (windows s)"
    and "\<not> is_valid_handle live (windows s ! current_index s)"
    and "s' = remove_invalid_window (current_index s) s"
    and "current_index s' < length (windows s')"
    and "is_valid_handle live (windows s' ! current_index s')"
    and "cycler_windows_api s" "act (hwnd (windows s' ! current_index s'))"
  shows "cycle_next live act s =
           Inr (s'\<lparr>total_cycles := total_cycles s + 1,
                  successful_activations := successful_activations s + 1,
                  current_index := (current_index s' + 1) mod length (windows s'),
                  trace := trace s' @ Activate (hwnd (windows s' ! current_index s')) True #
                    (if on_window_activated s then [WindowActivated (windows s' ! current_index s')] else [])\<rparr>)"
proof -
  let ?s0 = "s\<lparr>total_cycles := total_cycles s + 1\<rparr>"
  let ?s1 = "s'\<lparr>total_cycles := total_cycles s + 1\<rparr>"
  have ne: "windows s \<noteq> []" using assms(1) by auto
  have ne': "windows s' \<noteq> []" using assms(4) by auto
  have rm: "remove_invalid_window (current_index s) ?s0 = ?s1"
    using assms(1) by (auto simp: assms(3) remove_invalid_window_def Let_def)
  have fields: "cycler_windows_api s' = cycler_windows_api s" "on_window_activated s' = on_window_activated s"
    "successful_activations s' = successful_activations s"
    using assms(1) by (simp_all add: assms(3) remove_invalid_window_def Let_def)
  have "cycle_loop live act (length (windows s)) 0 ?s0 = cycle_loop live act (length (windows s)) 0 ?s1"
    using assms(1,2) ne ne' cycle_loop_first_invalid [of 0 "length (windows s)" ?s0 live act]
    by (simp add: rm)
  also have "\<dots> = Inr (?s1\<lparr>successful_activations := successful_activations ?s1 + 1,
                  current_index := (current_index ?s1 + 1) mod length (windows ?s1),
                  trace := trace ?s1 @ Activate (hwnd (windows ?s1 ! current_index ?s1)) True #
                    (if on_window_activated ?s1 then [WindowActivated (windows ?s1 ! current_index ?s1)] else [])\<rparr>)"
    using assms(4-) ne by (intro cycle_loop_first_success) (simp_all add: fields)
  finally show ?thesis
    using ne by (simp add: cycle_next_def fields)
qed

section \<open>Properties of the window cycler\<close>

text \<open>
  C2. \<open>set_windows\<close> keeps the windows whose handle is live. When none is left (so also
  for the empty list) it answers \<open>False\<close> and the state is the one it was given. Otherwise
  it answers \<open>True\<close>; only the list and the cursor change; the list holds exactly the live
  windows, ascending in \<open>order\<close>, windows of equal \<open>order\<close> in the sequence they were
  given; the cursor is 0.
\<close>

theorem set_windows_spec:
  assumes "set_windows live ws s = (r, s')"
  shows "(r \<longleftrightarrow> filter (is_valid_handle live) ws \<noteq> [])
       \<and> (\<not> r \<longrightarrow> s' = s)
       \<and> (r \<longrightarrow> s' = s\<lparr>windows := windows s', current_index := 0\<rparr>
              \<and> mset (windows s') = mset (filter (is_valid_handle live) ws)
              \<and> sorted (map order (windows s'))
              \<and> (\<forall>k. filter (\<lambda>w. order w = k) (windows s')
                     = filter (\<lambda>w. order w = k) (filter (is_valid_handle live) ws)))"
  using assms
  by (auto simp: set_windows_def Let_def sort_key_stable split: if_splits)

theorem set_windows_spec_witness:
  "set_windows live_except_2 [game_window 1 3, game_window 2 2, game_window 3 1]
       ((new_cycler False True True)\<lparr>current_index := 5\<rparr>)
     = (True, (new_cycler False True True)
                \<lparr>windows := [game_window 3 1, game_window 1 3], current_index := 0\<rparr>)
   \<and> sorted (map order [game_window 3 1, game_window 1 3])
   \<and> set_windows live_except_2 [game_window 2 2]
       ((new_cycler False True True)\<lparr>windows := [game_window 7 1], current_index := 0\<rparr>)
     = (False, (new_cycler False True True)\<lparr>windows := [game_window 7 1], current_index := 0\<rparr>)"
proof -
  let ?s = "(new_cycler False True True)\<lparr>current_index := 5\<rparr>"
  let ?s' = "(new_cycler False True True)
                \<lparr>windows := [game_window 3 1, game_window 1 3], current_index := 0\<rparr>"
  let ?t = "(new_cycler False True True)\<lparr>windows := [game_window 7 1], current_index := 0\<rparr>"
  have run: "set_windows live_except_2 [game_window 1 3, game_window 2 2, game_window 3 1] ?s
               = (True, ?s')"
    by (simp add: set_windows_def is_valid_handle_def live_except_2_def game_window_def
        new_cycler_def)
  have "sorted (map order (windows ?s'))"
    using set_windows_spec [OF run] by blast
  then have srt: "sorted (map order [game_window 3 1, game_window 1 3])"
    by simp
  obtain r t' where rej: "set_windows live_except_2 [game_window 2 2] ?t = (r, t')"
    by (cases "set_windows live_except_2 [game_window 2 2] ?t")
  have "\<not> r"
    using set_windows_spec [OF rej]
    by (simp add: is_valid_handle_def live_except_2_def game_window_def)
  then have "r = False" "t' = ?t"
    using set_windows_spec [OF rej] by blast+
  with run srt rej show ?thesis by simp
qed

text \<open>
  C9. The cursor indexes the list whenever the list is not empty: this holds of a fresh
  cycler and is kept by \<open>set_windows\<close>, \<open>cycle_next\<close>, \<open>cycle_to_specific\<close>,
  \<open>refresh_window_validity\<close> and \<open>reorder_windows\<close>; \<open>cycle_next\<close> and
  \<open>refresh_window_validity\<close> always return (no \<open>IndexError\<close>, no division by zero).
  A removal that really removes a window leaves the cursor in range from any state: a
  cursor left past the end of a non-empty list is set to 0.
\<close>

theorem cursor_in_range_invariant:
  assumes "cursor_ok s"
  shows "cursor_ok (new_cycler kb pn api)
       \<and> cursor_ok (snd (set_windows live ws s))
       \<and> (\<exists>s'. cycle_next live act s = Inr s' \<and> cursor_ok s')
       \<and> cursor_ok (snd (cycle_to_specific live act i s))
       \<and> (\<exists>s'. refresh_window_validity live s = Inr s' \<and> cursor_ok s')
       \<and> cursor_ok (snd (reorder_windows new_order s))
       \<and> (index < length (windows t) \<longrightarrow> cursor_ok (remove_invalid_window index t))"
proof -
  have "cursor_ok (new_cycler kb pn api)"
    by (simp add: cursor_ok_def new_cycler_def)
  moreover have "\<exists>s'. refresh_window_validity live s = Inr s' \<and> cursor_ok s'"
    unfolding refresh_window_validity_def using assms by (simp add: refresh_loop_returns)
  ultimately show ?thesis
    using assms
    by (simp add: set_windows_cursor_ok cycle_next_returns cycle_to_specific_cursor_ok
        reorder_windows_cursor_ok remove_invalid_window_cursor_ok)
qed

theorem cursor_in_range_invariant_witness:
  "cursor_ok ((new_cycler False True True)
       \<lparr>windows := [game_window 1 1, game_window 2 2, game_window 3 3], current_index := 2\<rparr>)
   \<and> (\<exists>s'. cycle_next live_except_2 act_always ((new_cycler False True True)
         \<lparr>windows := [game_window 1 1, game_window 2 2, game_window 3 3], current_index := 2\<rparr>) = Inr s'
         \<and> cursor_ok s')
   \<and> cursor_ok (snd (cycle_to_specific live_except_2 act_always 1 ((new_cycler False True True)
         \<lparr>windows := [game_window 1 1, game_window 2 2, game_window 3 3], current_index := 2\<rparr>)))
   \<and> (\<exists>s'. refresh_window_validity live_except_2 ((new_cycler False True True)
         \<lparr>windows := [game_window 1 1, game_window 2 2, game_window 3 3], current_index := 2\<rparr>) = Inr s'
         \<and> cursor_ok s')
   \<and> cursor_ok (remove_invalid_window 2 ((new_cycler False True True)
         \<lparr>windows := [game_window 1 1, game_window 2 2, game_window 3 3], current_index := 2\<rparr>))
   \<and> current_index (remove_invalid_window 2 ((new_cycler False True True)
         \<lparr>windows := [game_window 1 1, game_window 2 2, game_window 3 3], current_index := 2\<rparr>)) = 0"
proof -
  let ?S = "(new_cycler False True True)
       \<lparr>windows := [game_window 1 1, game_window 2 2, game_window 3 3], current_index := 2\<rparr>"
  have h: "cursor_ok ?S"
    by (simp add: cursor_ok_def)
  have len: "2 < length (windows ?S)"
    by simp
  have clamp: "current_index (remove_invalid_window 2 ?S) = 0"
    by (simp add: remove_invalid_window_def Let_def)
  show ?thesis
    using h len clamp
      cursor_in_range_invariant [OF h, of False True True live_except_2 "[]" act_always 1 "[]" 2 ?S]
    by blast
qed

text \<open>
  C3. When the list is not empty, every window is live and every activation fails, one
  \<open>cycle_next\<close> returns normally; it adds 1 to \<open>total_cycles\<close> and the length of the
  list to \<open>failed_activations\<close>; \<open>successful_activations\<close>, the list and the hotkey
  manager are unchanged, no observer is called, and the activation calls made (when the
  Windows API object exists) are one failed call per window, going round from the cursor.
  The cursor ends where the round started.
\<close>

theorem cycle_next_all_fail:
  assumes "windows s \<noteq> []"
    and "\<forall>w\<in>set (windows s). is_valid_handle live w"
    and "\<forall>w\<in>set (windows s). \<not> fst (activate_window act w s)"
  shows "cycle_next live act s =
           Inr (s\<lparr>total_cycles := total_cycles s + 1,
                  failed_activations := failed_activations s + int (length (windows s)),
                  current_index := (if current_index s < length (windows s) then current_index s else 0),
                  trace := trace s @
                    (if cycler_windows_api s
                     then map (\<lambda>w. Activate (hwnd w) False)
                            (rotate (if current_index s < length (windows s) then current_index s else 0)
                               (windows s))
                     else [])\<rparr>)"
proof -
  let ?N = "length (windows s)"
  let ?c = "if current_index s < ?N then current_index s else 0"
  define s0 where "s0 = s\<lparr>total_cycles := total_cycles s + 1\<rparr>"
  define s1 where "s1 = wrap_index s0"
  have nf: "\<forall>w\<in>set (windows s). \<not> (cycler_windows_api s \<and> act (hwnd w))"
    using assms(3) by (auto simp: activate_window_def split: if_splits)
  have N: "0 < ?N" using assms(1) by simp
  have c: "?c < ?N" using assms(1) by simp
  have s1: "windows s1 = windows s" "current_index s1 = ?c" "cycler_windows_api s1 = cycler_windows_api s"
    "trace s1 = trace s" "failed_activations s1 = failed_activations s"
    by (auto simp: wrap_index_def s0_def s1_def)
  have s1_eq: "s1 = s\<lparr>total_cycles := total_cycles s + 1, current_index := ?c\<rparr>"
    by (auto simp: wrap_index_def s0_def s1_def)
  have loop_eq: "cycle_loop live act ?N 0 s0 = cycle_loop live act ?N 0 s1"
    unfolding s1_def using N assms(1) by (intro cycle_loop_wrap [symmetric]) (simp_all add: s0_def)
  have run: "cycle_loop live act ?N 0 s1 =
           Inr (s1\<lparr>failed_activations := failed_activations s1 + int ?N,
                  current_index := (current_index s1 + ?N) mod length (windows s1),
                  trace := trace s1 @
                    (if cycler_windows_api s1
                     then map (\<lambda>j. Activate (hwnd (windows s1 ! ((current_index s1 + j) mod length (windows s1)))) False) [0..<?N]
                     else [])\<rparr>)"
    using assms(1,2) nf c
    by (intro cycle_loop_all_fail) (simp_all add: s1)
  have rot: "map (\<lambda>j. Activate (hwnd (windows s ! ((?c + j) mod ?N))) False) [0..<?N]
        = map (\<lambda>w. Activate (hwnd w) False) (rotate ?c (windows s))"
    unfolding rotate_as_map [OF c, symmetric] by (simp add: o_def)
  have "cycle_next live act s = cycle_loop live act ?N 0 s1"
    using assms(1) by (simp add: cycle_next_def loop_eq flip: s0_def)
  also have "\<dots> = Inr (s1\<lparr>failed_activations := failed_activations s + int ?N,
                  current_index := ?c,
                  trace := trace s @
                    (if cycler_windows_api s
                     then map (\<lambda>w. Activate (hwnd w) False) (rotate ?c (windows s))
                     else [])\<rparr>)"
    unfolding run s1 rot using c by simp
  finally show ?thesis
    by (simp add: s1_eq)
qed

theorem cycle_next_all_fail_witness:
  "cycle_next all_live act_never ((new_cycler False True True)
       \<lparr>windows := [game_window 1 1, game_window 2 2], current_index := 1\<rparr>)
   = Inr ((new_cycler False True True)
       \<lparr>windows := [game_window 1 1, game_window 2 2], current_index := 1,
         total_cycles := 1, failed_activations := 2,
         trace := [Activate 2 False, Activate 1 False]\<rparr>)"
proof -
  let ?S = "(new_cycler False True True)
       \<lparr>windows := [game_window 1 1, game_window 2 2], current_index := 1\<rparr>"
  have ne: "windows ?S \<noteq> []" by simp
  have live: "\<forall>w\<in>set (windows ?S). is_valid_handle all_live w"
    by (simp add: is_valid_handle_def all_live_def)
  have fail: "\<forall>w\<in>set (windows ?S). \<not> fst (activate_window act_never w ?S)"
    by (simp add: activate_window_def act_never_def)
  show ?thesis
    using cycle_next_all_fail [OF ne live fail]
    by (simp add: new_cycler_def game_window_def rotate1_def eval_nat_numeral)
qed

text \<open>
  C1 (as the code has it). An invalid window is removed only when the cursor reaches it.
  For the list \<open>[a, b, c]\<close> with \<open>a\<close> and \<open>c\<close> live, \<open>b\<close> dead, cursor 0 and
  activation of \<open>a\<close> and \<open>c\<close> succeeding: the first \<open>cycle_next\<close> activates \<open>a\<close>
  and leaves all three windows in the list, with the cursor on \<open>b\<close>; the second call
  removes \<open>b\<close> (the list becomes \<open>[a, c]\<close>) and activates \<open>c\<close>. For the list
  \<open>[a, b]\<close>: the first call activates \<open>a\<close> and keeps \<open>b\<close>; the second call removes
  \<open>b\<close> and activates \<open>a\<close> again, the only window left.
\<close>

theorem cycle_next_prunes_lazily:
  assumes "is_valid_handle live a" "\<not> is_valid_handle live b" "is_valid_handle live c"
    and "act (hwnd a)" "act (hwnd c)"
    and "cycler_windows_api s" "current_index s = 0"
  shows "(windows s = [a, b, c] \<longrightarrow>
          (\<exists>s1 s2. cycle_next live act s = Inr s1
             \<and> windows s1 = [a, b, c] \<and> current_index s1 = 1
             \<and> trace s1 = trace s @ Activate (hwnd a) True #
                   (if on_window_activated s then [WindowActivated a] else [])
             \<and> cycle_next live act s1 = Inr s2
             \<and> windows s2 = [a, c] \<and> current_index s2 = 0
             \<and> trace s2 = trace s1 @ (if on_window_removed s then [WindowRemoved b] else [])
                   @ Activate (hwnd c) True # (if on_window_activated s then [WindowActivated c] else [])
             \<and> successful_activations s2 = successful_activations s + 2))
       \<and> (windows s = [a, b] \<longrightarrow>
          (\<exists>s1 s2. cycle_next live act s = Inr s1
             \<and> windows s1 = [a, b] \<and> current_index s1 = 1
             \<and> trace s1 = trace s @ Activate (hwnd a) True #
                   (if on_window_activated s then [WindowActivated a] else [])
             \<and> cycle_next live act s1 = Inr s2
             \<and> windows s2 = [a] \<and> current_index s2 = 0
             \<and> trace s2 = trace s1 @ (if on_window_removed s then [WindowRemoved b] else [])
                   @ Activate (hwnd a) True # (if on_window_activated s then [WindowActivated a] else [])
             \<and> successful_activations s2 = successful_activations s + 2))"
proof (intro conjI impI)
  assume ws: "windows s = [a, b, c]"
  define s1 where "s1 = s\<lparr>total_cycles := total_cycles s + 1,
      successful_activations := successful_activations s + 1, current_index := 1,
      trace := trace s @ Activate (hwnd a) True # (if on_window_activated s then [WindowActivated a] else [])\<rparr>"
  define s' where "s' = remove_invalid_window (current_index s1) s1"
  have first: "cycle_next live act s = Inr s1"
    using assms ws cycle_next_activates_cursor [of s live act] by (simp add: s1_def)
  have s': "windows s' = [a, c]" "current_index s' = 1"
    "trace s' = trace s1 @ (if on_window_removed s then [WindowRemoved b] else [])"
    by (simp_all add: s'_def s1_def ws remove_invalid_window_def Let_def)
  have second: "cycle_next live act s1 =
           Inr (s'\<lparr>total_cycles := total_cycles s1 + 1,
                  successful_activations := successful_activations s1 + 1,
                  current_index := (current_index s' + 1) mod length (windows s'),
                  trace := trace s' @ Activate (hwnd (windows s' ! current_index s')) True #
                    (if on_window_activated s1 then [WindowActivated (windows s' ! current_index s')] else [])\<rparr>)"
    using assms s'
    by (intro cycle_next_prunes_then_activates) (simp_all add: s'_def, simp_all add: s1_def ws)
  show "\<exists>s1 s2. cycle_next live act s = Inr s1
             \<and> windows s1 = [a, b, c] \<and> current_index s1 = 1
             \<and> trace s1 = trace s @ Activate (hwnd a) True #
                   (if on_window_activated s then [WindowActivated a] else [])
             \<and> cycle_next live act s1 = Inr s2
             \<and> windows s2 = [a, c] \<and> current_index s2 = 0
             \<and> trace s2 = trace s1 @ (if on_window_removed s then [WindowRemoved b] else [])
                   @ Activate (hwnd c) True # (if on_window_activated s then [WindowActivated c] else [])
             \<and> successful_activations s2 = successful_activations s + 2"
    apply (rule exI [of _ s1])
    apply (rule exI)
    apply (intro conjI)
            apply (rule first)
           apply (simp add: s1_def ws)
          apply (simp add: s1_def)
         apply (simp add: s1_def)
        apply (rule second)
       apply (simp_all add: s')
     apply (simp_all add: s1_def)
    done
next
  assume ws: "windows s = [a, b]"
  define s1 where "s1 = s\<lparr>total_cycles := total_cycles s + 1,
      successful_activations := successful_activations s + 1, current_index := 1,
      trace := trace s @ Activate (hwnd a) True # (if on_window_activated s then [WindowActivated a] else [])\<rparr>"
  define s' where "s' = remove_invalid_window (current_index s1) s1"
  have first: "cycle_next live act s = Inr s1"
    using assms ws cycle_next_activates_cursor [of s live act] by (simp add: s1_def)
  have s': "windows s' = [a]" "current_index s' = 0"
    "trace s' = trace s1 @ (if on_window_removed s then [WindowRemoved b] else [])"
    by (simp_all add: s'_def s1_def ws remove_invalid_window_def Let_def)
  have second: "cycle_next live act s1 =
           Inr (s'\<lparr>total_cycles := total_cycles s1 + 1,
                  successful_activations := successful_activations s1 + 1,
                  current_index := (current_index s' + 1) mod length (windows s'),
                  trace := trace s' @ Activate (hwnd (windows s' ! current_index s')) True #
                    (if on_window_activated s1 then [WindowActivated (windows s' ! current_index s')] else [])\<rparr>)"
    using assms s'
    by (intro cycle_next_prunes_then_activates) (simp_all add: s'_def, simp_all add: s1_def ws)
  show "\<exists>s1 s2. cycle_next live act s = Inr s1
             \<and> windows s1 = [a, b] \<and> current_index s1 = 1
             \<and> trace s1 = trace s @ Activate (hwnd a) True #
                   (if on_window_activated s then [WindowActivated a] else [])
             \<and> cycle_next live act s1 = Inr s2
             \<and> windows s2 = [a] \<and> current_index s2 = 0
             \<and> trace s2 = trace s1 @ (if on_window_removed s then [WindowRemoved b] else [])
                   @ Activate (hwnd a) True # (if on_window_activated s then [WindowActivated a] else [])
             \<and> successful_activations s2 = successful_activations s + 2"
    apply (rule exI [of _ s1])
    apply (rule exI)
    apply (intro conjI)
            apply (rule first)
           apply (simp add: s1_def ws)
          apply (simp add: s1_def)
         apply (simp add: s1_def)
        apply (rule second)
       apply (simp_all add: s')
     apply (simp_all add: s1_def)
    done
qed

theorem cycle_next_prunes_lazily_witness:
  "\<exists>s1 s2. cycle_next live_except_2 act_always
        ((new_cycler False True True)\<lparr>windows := [game_window 1 1, game_window 2 2]\<rparr>) = Inr s1
      \<and> windows s1 = [game_window 1 1, game_window 2 2] \<and> current_index s1 = 1
      \<and> trace s1 = [Activate 1 True]
      \<and> cycle_next live_except_2 act_always s1 = Inr s2
      \<and> windows s2 = [game_window 1 1] \<and> current_index s2 = 0
      \<and> trace s2 = [Activate 1 True, Activate 1 True]
      \<and> successful_activations s2 = 2"
proof -
  let ?a = "game_window 1 1" and ?b = "game_window 2 2" and ?c = "game_window 3 3"
  let ?S = "(new_cycler False True True)\<lparr>windows := [?a, ?b]\<rparr>"
  have h: "is_valid_handle live_except_2 ?a" "\<not> is_valid_handle live_except_2 ?b"
    "is_valid_handle live_except_2 ?c" "act_always (hwnd ?a)" "act_always (hwnd ?c)"
    "cycler_windows_api ?S" "current_index ?S = 0"
    by (simp_all add: is_valid_handle_def live_except_2_def act_always_def game_window_def
        new_cycler_def)
  have ws: "windows ?S = [?a, ?b]" by simp
  have obs: "\<not> on_window_activated ?S" "\<not> on_window_removed ?S" "trace ?S = []"
    "successful_activations ?S = 0" "hwnd ?a = 1"
    by (simp_all add: new_cycler_def game_window_def)
  show ?thesis
    using cycle_next_prunes_lazily [OF h] ws obs by force
qed

text \<open>
  C1 as stated fails: after one call on the three-window list, the dead window 2 is still
  in the list, whose length is 3.
\<close>

theorem cycle_next_leaves_dead_window_behind_cursor:
  "cycle_next live_except_2 act_always
      ((new_cycler False True True)
         \<lparr>windows := [game_window 1 1, game_window 2 2, game_window 3 3]\<rparr>)
   = Inr ((new_cycler False True True)
         \<lparr>windows := [game_window 1 1, game_window 2 2, game_window 3 3],
           current_index := 1, total_cycles := 1, successful_activations := 1,
           trace := [Activate 1 True]\<rparr>)
   \<and> \<not> is_valid_handle live_except_2 (game_window 2 2)
   \<and> length [game_window 1 1, game_window 2 2, game_window 3 3] \<noteq> 2"
proof -
  let ?S = "(new_cycler False True True)
         \<lparr>windows := [game_window 1 1, game_window 2 2, game_window 3 3]\<rparr>"
  have f: "current_index ?S = 0" "cycler_windows_api ?S" "\<not> on_window_activated ?S"
    "trace ?S = []" "total_cycles ?S = 0" "successful_activations ?S = 0"
    by (simp_all add: new_cycler_def)
  have "cycle_next live_except_2 act_always ?S =
           Inr (?S\<lparr>total_cycles := total_cycles ?S + 1,
                  successful_activations := successful_activations ?S + 1,
                  current_index := (current_index ?S + 1) mod length (windows ?S),
                  trace := trace ?S @ Activate (hwnd (windows ?S ! current_index ?S)) True #
                    (if on_window_activated ?S then [WindowActivated (windows ?S ! current_index ?S)] else [])\<rparr>)"
    by (rule cycle_next_activates_cursor)
       (simp_all add: new_cycler_def is_valid_handle_def live_except_2_def act_always_def
          game_window_def)
  then show ?thesis
    by (simp add: new_cycler_def is_valid_handle_def live_except_2_def game_window_def)
qed

text \<open>
  C8 (as the code has it). \<open>cycle_next\<close> on an empty list (before \<open>set_windows\<close> has
  accepted a list, or after the last window was removed) raises nothing and returns with
  the state it was given: no counter moves and no observer is called.
\<close>

theorem cycle_next_empty_returns_unchanged:
  "windows s = [] \<Longrightarrow> cycle_next live act s = Inr s"
  by (simp add: cycle_next_def)

theorem cycle_next_empty_returns_unchanged_witness:
  "cycle_next live_except_2 act_never ((new_cycler True False True)\<lparr>total_cycles := 7\<rparr>)
     = Inr ((new_cycler True False True)\<lparr>total_cycles := 7\<rparr>)"
proof -
  have "windows ((new_cycler True False True)\<lparr>total_cycles := 7\<rparr>) = []"
    by (simp add: new_cycler_def)
  then show ?thesis
    by (rule cycle_next_empty_returns_unchanged)
qed

text \<open>
  C8 as stated fails: on a freshly constructed cycler the call returns normally, with the
  state unchanged, where the claim asks for a reported precondition violation.
\<close>

theorem cycle_next_before_set_windows_is_silent:
  "cycle_next all_live act_always (new_cycler True True True) = Inr (new_cycler True True True)"
  by (simp add: cycle_next_def new_cycler_def)

text \<open>
  C10. When \<open>cycle_to_specific i\<close> answers \<open>True\<close>, the index was in range, the list is
  unchanged and the cursor is \<open>i\<close> itself. With the same answers of the system, the next
  \<open>cycle_next\<close> therefore activates window \<open>i\<close> once more, and only then leaves the
  cursor one past it (modulo the length).
\<close>

theorem jump_then_advance_repeats_window:
  assumes "cycle_to_specific live act i s = (True, s')"
  shows "0 \<le> i \<and> nat i < length (windows s) \<and> windows s' = windows s
       \<and> current_index s' = nat i
       \<and> trace s' = trace s @ Activate (hwnd (windows s ! nat i)) True #
            (if on_window_activated s then [WindowActivated (windows s ! nat i)] else [])
       \<and> cycle_next live act s' =
           Inr (s'\<lparr>total_cycles := total_cycles s' + 1,
                  successful_activations := successful_activations s' + 1,
                  current_index := (nat i + 1) mod length (windows s),
                  trace := trace s' @ Activate (hwnd (windows s ! nat i)) True #
                    (if on_window_activated s then [WindowActivated (windows s ! nat i)] else [])\<rparr>)"
proof -
  let ?w = "windows s ! nat i"
  have rng: "windows s \<noteq> []" "0 \<le> i" "i < int (length (windows s))"
    using assms by (auto simp: cycle_to_specific_def split: if_splits)
  then have lt: "nat i < length (windows s)" by simp
  have valid: "is_valid_handle live ?w"
    using assms rng by (auto simp: cycle_to_specific_def Let_def split: if_splits)
  have ok: "fst (activate_window act ?w s)"
    using assms rng valid by (auto simp: cycle_to_specific_def Let_def split: if_splits)
  then have api: "cycler_windows_api s" "act (hwnd ?w)"
    by (auto simp: activate_window_def split: if_splits)
  have s': "s' = s\<lparr>current_index := nat i,
                    trace := trace s @ Activate (hwnd ?w) True #
                      (if on_window_activated s then [WindowActivated ?w] else [])\<rparr>"
    using assms rng valid api by (auto simp: cycle_to_specific_def Let_def activate_window_def)
  have f: "windows s' = windows s" "current_index s' = nat i" "cycler_windows_api s'"
    "on_window_activated s' = on_window_activated s"
    using api by (simp_all add: s')
  have "cycle_next live act s' =
           Inr (s'\<lparr>total_cycles := total_cycles s' + 1,
                  successful_activations := successful_activations s' + 1,
                  current_index := (current_index s' + 1) mod length (windows s'),
                  trace := trace s' @ Activate (hwnd (windows s' ! current_index s')) True #
                    (if on_window_activated s' then [WindowActivated (windows s' ! current_index s')] else [])\<rparr>)"
    using lt valid api by (intro cycle_next_activates_cursor) (simp_all add: f)
  then show ?thesis
    using rng lt by (simp add: f) (simp add: s')
qed

theorem jump_then_advance_repeats_window_witness:
  "cycle_to_specific all_live act_always 1
      ((new_cycler False True True)\<lparr>windows := [game_window 1 1, game_window 2 2, game_window 3 3]\<rparr>)
    = (True, (new_cycler False True True)
         \<lparr>windows := [game_window 1 1, game_window 2 2, game_window 3 3],
           current_index := 1, trace := [Activate 2 True]\<rparr>)
   \<and> cycle_next all_live act_always ((new_cycler False True True)
         \<lparr>windows := [game_window 1 1, game_window 2 2, game_window 3 3],
           current_index := 1, trace := [Activate 2 True]\<rparr>)
    = Inr ((new_cycler False True True)
         \<lparr>windows := [game_window 1 1, game_window 2 2, game_window 3 3],
           current_index := 2, total_cycles := 1, successful_activations := 1,
           trace := [Activate 2 True, Activate 2 True]\<rparr>)"
proof -
  let ?S = "(new_cycler False True True)\<lparr>windows := [game_window 1 1, game_window 2 2, game_window 3 3]\<rparr>"
  let ?S' = "(new_cycler False True True)
         \<lparr>windows := [game_window 1 1, game_window 2 2, game_window 3 3],
           current_index := 1, trace := [Activate 2 True]\<rparr>"
  have jump: "cycle_to_specific all_live act_always 1 ?S = (True, ?S')"
    by (simp add: cycle_to_specific_def is_valid_handle_def all_live_def act_always_def
        activate_window_def Let_def)
       (simp add: new_cycler_def game_window_def)
  show ?thesis
    using jump jump_then_advance_repeats_window [OF jump]
    by (simp add: new_cycler_def game_window_def)
qed

section \<open>Lemmas about the hotkey manager\<close>














section \<open>Properties of the hotkey manager\<close>

text \<open>
  C4 (as the code has it). The debounce test accepts a candidate at time \<open>t\<close> exactly when
  \<open>t\<close> minus the stored time of the last accepted trigger is at least 0.2 seconds. An
  accepted candidate stores \<open>t\<close>; a rejected one leaves the manager as it was. Of two
  candidates less than 0.2 seconds apart at most one starts the callback. Exactly one does
  (the first, whose time is then the stored one) when the first is itself accepted and a
  callback and a combination are set. None does, and the manager is unchanged, when both
  come less than 0.2 seconds after the last accepted trigger.
\<close>

theorem debounce_accepts_iff_interval_elapsed:
  "fst (should_trigger t m) = (t - last_trigger_time m \<ge> 0.2)
   \<and> (fst (should_trigger t m) \<longrightarrow> snd (should_trigger t m) = m\<lparr>last_trigger_time := t\<rparr>)
   \<and> (\<not> fst (should_trigger t m) \<longrightarrow> snd (should_trigger t m) = m)
   \<and> (\<bar>t2 - t1\<bar> < 0.2 \<longrightarrow> dispatched (on_hotkey t2 (on_hotkey t1 m)) \<le> dispatched m + 1)
   \<and> (callback m \<and> current_config m \<noteq> None \<and> t1 - last_trigger_time m \<ge> 0.2
        \<and> \<bar>t2 - t1\<bar> < 0.2 \<longrightarrow>
        dispatched (on_hotkey t2 (on_hotkey t1 m)) = dispatched m + 1
        \<and> last_trigger_time (on_hotkey t2 (on_hotkey t1 m)) = t1)
   \<and> (t1 - last_trigger_time m < 0.2 \<and> t2 - last_trigger_time m < 0.2 \<longrightarrow>
        on_hotkey t2 (on_hotkey t1 m) = m)"
proof -
  have a: "fst (should_trigger t m) = (t - last_trigger_time m \<ge> 0.2)"
    by (simp add: should_trigger_def min_trigger_interval_def)
  have b: "fst (should_trigger t m) \<longrightarrow> snd (should_trigger t m) = m\<lparr>last_trigger_time := t\<rparr>"
    by (simp add: should_trigger_def)
  have c: "\<not> fst (should_trigger t m) \<longrightarrow> snd (should_trigger t m) = m"
    by (simp add: should_trigger_def)
  have d: "\<bar>t2 - t1\<bar> < 0.2 \<longrightarrow> dispatched (on_hotkey t2 (on_hotkey t1 m)) \<le> dispatched m + 1"
    by (auto simp: should_trigger_def on_hotkey_def trigger_callback_def min_trigger_interval_def
        Let_def split: option.splits)
  have e: "callback m \<and> current_config m \<noteq> None \<and> t1 - last_trigger_time m \<ge> 0.2
        \<and> \<bar>t2 - t1\<bar> < 0.2 \<longrightarrow>
        dispatched (on_hotkey t2 (on_hotkey t1 m)) = dispatched m + 1
        \<and> last_trigger_time (on_hotkey t2 (on_hotkey t1 m)) = t1"
    by (auto simp: should_trigger_def on_hotkey_def trigger_callback_def min_trigger_interval_def
        Let_def split: option.splits)
  have f: "t1 - last_trigger_time m < 0.2 \<and> t2 - last_trigger_time m < 0.2 \<longrightarrow>
        on_hotkey t2 (on_hotkey t1 m) = m"
    by (auto simp: should_trigger_def on_hotkey_def min_trigger_interval_def Let_def)
  from a b c d e f show ?thesis by blast
qed

theorem debounce_accepts_iff_interval_elapsed_witness:
  "fst (should_trigger 1000 manager_configured)
   \<and> snd (should_trigger 1000 manager_configured) = manager_configured\<lparr>last_trigger_time := 1000\<rparr>
   \<and> \<not> fst (should_trigger 0.1 manager_configured)
   \<and> snd (should_trigger 0.1 manager_configured) = manager_configured
   \<and> dispatched (on_hotkey 1000.15 (on_hotkey 1000 manager_configured)) = 1
   \<and> last_trigger_time (on_hotkey 1000.15 (on_hotkey 1000 manager_configured)) = 1000
   \<and> on_hotkey 0.15 (on_hotkey 0.1 manager_configured) = manager_configured"
proof -
  let ?m = "manager_configured"
  have f: "last_trigger_time ?m = 0" "callback ?m" "current_config ?m \<noteq> None" "dispatched ?m = 0"
    by (simp_all add: manager_configured_def new_manager_def)
  have h1: "callback ?m \<and> current_config ?m \<noteq> None \<and> 1000 - last_trigger_time ?m \<ge> 0.2
        \<and> \<bar>1000.15 - 1000 :: real\<bar> < 0.2"
    by (simp add: f)
  have h2: "0.1 - last_trigger_time ?m < 0.2 \<and> 0.15 - last_trigger_time ?m < 0.2"
    by (simp add: f)
  show ?thesis
    using h1 h2 f
      debounce_accepts_iff_interval_elapsed [of 1000 ?m]
      debounce_accepts_iff_interval_elapsed [of "0.1" ?m]
      debounce_accepts_iff_interval_elapsed [of _ ?m 1000 "1000.15"]
      debounce_accepts_iff_interval_elapsed [of _ ?m "0.1" "0.15"]
    by simp
qed

text \<open>
  C4 as stated fails: after a trigger accepted at 1000, the two candidates at 1000.05 and
  1000.1, less than 0.2 seconds apart, are both dropped; the count of dispatched callbacks
  stays at 1 and the manager is the one the first trigger left.
\<close>

theorem two_close_candidates_after_a_trigger_dispatch_nothing:
  "\<bar>1000.1 - 1000.05 :: real\<bar> < 0.2
   \<and> dispatched (on_hotkey 1000 manager_configured) = 1
   \<and> last_trigger_time (on_hotkey 1000 manager_configured) = 1000
   \<and> dispatched (on_hotkey 1000.1 (on_hotkey 1000.05 (on_hotkey 1000 manager_configured))) = 1
   \<and> on_hotkey 1000.1 (on_hotkey 1000.05 (on_hotkey 1000 manager_configured))
       = on_hotkey 1000 manager_configured"
  by (simp add: on_hotkey_def should_trigger_def trigger_callback_def min_trigger_interval_def
      manager_configured_def new_manager_def Let_def)




text \<open>
  C6. For a combination whose main key is \<open>middle\<close>, \<open>mouse4\<close> or \<open>mouse5\<close>, with any
  modifiers: \<open>_get_vk_code\<close> gives no key code, \<open>_convert_for_win32\<close> gives
  \<open>(None, None)\<close>, and \<open>_start_win32_method\<close> answers \<open>False\<close> with the manager
  unchanged: no thread is stored and the stop flag is not touched.
\<close>

theorem win32_rejects_pointer_buttons:
  assumes "main_key config \<in> {''middle'', ''mouse4'', ''mouse5''}"
  shows "get_vk_code env (main_key config) = None
       \<and> convert_for_win32 env config = (None, None)
       \<and> start_win32_method env (m\<lparr>current_config := Some config\<rparr>)
           = (False, m\<lparr>current_config := Some config\<rparr>)"
proof -
  have vk: "get_vk_code env (main_key config) = None"
    using assms
    by (auto simp: get_vk_code_def function_key_vk_def startswith_def special_vk_map_def
        str_isalpha_def str_isdigit_def)
  then have conv: "convert_for_win32 env config = (None, None)"
    by (simp add: convert_for_win32_def Let_def)
  show ?thesis
    using vk conv by (simp add: start_win32_method_def)
qed

theorem win32_rejects_pointer_buttons_witness:
  "parse ''Ctrl+Mouse5'' = Inr combo_ctrl_mouse5
   \<and> get_vk_code env_pynput_only ''mouse5'' = None
   \<and> start_win32_method env_pynput_only
        ((new_manager True True True)\<lparr>current_config := Some combo_ctrl_mouse5\<rparr>)
       = (False, (new_manager True True True)\<lparr>current_config := Some combo_ctrl_mouse5\<rparr>)
   \<and> get_vk_code env_pynput_only ''f5'' = Some 116"
proof -
  have p: "parse ''Ctrl+Mouse5'' = Inr combo_ctrl_mouse5"
    by code_simp
  have k: "main_key combo_ctrl_mouse5 \<in> {''middle'', ''mouse4'', ''mouse5''}"
    by (simp add: combo_ctrl_mouse5_def)
  have mk: "main_key combo_ctrl_mouse5 = ''mouse5''"
    by (simp add: combo_ctrl_mouse5_def)
  have f5: "get_vk_code env_pynput_only ''f5'' = Some 116"
    by code_simp
  show ?thesis
    using win32_rejects_pointer_buttons [OF k, of env_pynput_only "new_manager True True True"] p f5
    by (simp add: mk)
qed

section \<open>Lemmas about hotkey strings\<close>

lemma lower_char_idem: "lower_char (lower_char c) = lower_char c"
  by (simp add: lower_char_def Let_def)

lemma str_lower_idem: "str_lower (str_lower x) = str_lower x"
  by (simp add: str_lower_def lower_char_idem)

lemma is_space_lower_char: "is_space (lower_char c) = is_space c"
  by (auto simp: is_space_def lower_char_def Let_def)

lemma dropWhile_space_lower:
  "dropWhile is_space (map lower_char x) = map lower_char (dropWhile is_space x)"
  by (induction x) (simp_all add: is_space_lower_char)

lemma str_strip_lower: "str_strip (str_lower x) = str_lower (str_strip x)"
  by (simp add: str_strip_def str_lower_def dropWhile_space_lower rev_map)

lemma dropWhile_rev_dropWhile:
  assumes "dropWhile P y = y"
  shows "dropWhile P (rev (dropWhile P (rev y))) = rev (dropWhile P (rev y))"
proof (cases "rev (dropWhile P (rev y))")
  case Nil
  show ?thesis by (simp only: Nil dropWhile.simps)
next
  case (Cons a t)
  have "rev y = takeWhile P (rev y) @ dropWhile P (rev y)"
    by simp
  then have "y = rev (dropWhile P (rev y)) @ rev (takeWhile P (rev y))"
    by (metis rev_append rev_rev_ident)
  then have y: "y = a # (t @ rev (takeWhile P (rev y)))"
    using Cons by simp
  have "\<not> P a"
  proof
    assume "P a"
    then have "dropWhile P y \<noteq> y"
      by (subst (1 2) y) (simp, metis length_dropWhile_le impossible_Cons)
    then show False using assms by simp
  qed
  then show ?thesis using Cons by simp
qed

lemma str_strip_idem: "str_strip (str_strip x) = str_strip x"
proof -
  let ?y = "dropWhile is_space x"
  have "dropWhile is_space ?y = ?y"
    by (simp add: dropWhile_idem)
  then have a: "dropWhile is_space (rev (dropWhile is_space (rev ?y))) = rev (dropWhile is_space (rev ?y))"
    by (rule dropWhile_rev_dropWhile)
  show ?thesis
    by (simp add: str_strip_def a dropWhile_idem)
qed

lemma str_split_nonempty: "str_split sep x \<noteq> []"
  by (induction x) (auto split: list.splits)

lemma str_join_Cons_char:
  "str_join sep ((c # p) # ps) = c # str_join sep (p # ps)"
  by (cases ps) simp_all

lemma str_join_split: "str_join [sep] (str_split sep x) = x"
proof (induction x)
  case Nil
  then show ?case by simp
next
  case (Cons c cs)
  obtain p ps where sp: "str_split sep cs = p # ps"
    using str_split_nonempty [of sep cs] by (cases "str_split sep cs") auto
  show ?case
    using Cons by (simp add: sp str_join_Cons_char)
qed

lemma str_lower_join:
  "str_lower (str_join sep ps) = str_join (str_lower sep) (map str_lower ps)"
  by (induction sep ps rule: str_join.induct) (simp_all add: str_lower_def)


lemma parse_cong:
  "str_strip (str_lower s) = str_strip (str_lower t) \<Longrightarrow> parse s = parse t"
  by (simp add: parse_def)

lemma validate_hotkey_cong:
  "s \<noteq> [] \<Longrightarrow> str_strip s \<noteq> [] \<Longrightarrow> t \<noteq> [] \<Longrightarrow> str_strip t \<noteq> [] \<Longrightarrow>
   str_strip (str_lower s) = str_strip (str_lower t) \<Longrightarrow> validate_hotkey s = validate_hotkey t"
  by (simp add: validate_hotkey_def)

lemma valid_modifiers_checked:
  "list_all (\<lambda>v. case ModifierKey_of v of
                     Some m \<Rightarrow> str_lower (modifier_display m) = v
                   | None \<Rightarrow> False) VALID_MODIFIERS"
  by code_simp

lemma valid_modifier_cases:
  assumes "v \<in> set VALID_MODIFIERS"
  shows "\<exists>m. ModifierKey_of v = Some m \<and> str_lower (modifier_display m) = v"
  using valid_modifiers_checked assms
  by (auto simp: list_all_iff split: option.splits)

lemma parse_modifiers_valid:
  "\<forall>v\<in>set vs. v \<in> set VALID_MODIFIERS \<Longrightarrow>
   \<exists>mods. parse_modifiers vs = Inr mods
        \<and> map (\<lambda>m. str_lower (modifier_display m)) mods = vs"
proof (induction vs)
  case Nil
  then show ?case by simp
next
  case (Cons v vs)
  then obtain m where m: "ModifierKey_of v = Some m" "str_lower (modifier_display m) = v"
    using valid_modifier_cases [of v] by auto
  from Cons obtain mods where mods: "parse_modifiers vs = Inr mods"
    "map (\<lambda>m. str_lower (modifier_display m)) mods = vs"
    by auto
  show ?case
    by (simp add: m mods)
qed

lemma valid_keys_checked:
  "list_all (\<lambda>k. k \<noteq> [] \<and> (k \<in> set [''middle'', ''mouse4'', ''mouse5'']
                              \<or> str_lower (main_key_display k) = k)) VALID_KEYS"
  by code_simp

lemma valid_key_display_lower:
  assumes "k \<in> set VALID_KEYS" "k \<notin> {''middle'', ''mouse4'', ''mouse5''}"
  shows "str_lower (main_key_display k) = k"
proof -
  have "k \<in> set [''middle'', ''mouse4'', ''mouse5''] \<or> str_lower (main_key_display k) = k"
    using valid_keys_checked assms(1) unfolding list_all_iff by blast
  then show ?thesis
    using assms(2) by (simp del: One_nat_def)
qed

lemma valid_key_nonempty: "k \<in> set VALID_KEYS \<Longrightarrow> k \<noteq> []"
  using valid_keys_checked unfolding list_all_iff by blast


lemma validate_hotkey_parts:
  assumes "validate_hotkey s"
  shows "s \<noteq> []" "str_strip s \<noteq> []"
    "last (str_split CHR ''+'' (str_strip (str_lower s))) \<in> set VALID_KEYS"
    "\<forall>v\<in>set (butlast (str_split CHR ''+'' (str_strip (str_lower s)))). v \<in> set VALID_MODIFIERS"
  using assms by (auto simp: validate_hotkey_def Let_def split: if_splits)

section \<open>Properties of the hotkey model\<close>

text \<open>
  C7 (as the code has it). Let \<open>c\<close> be the configuration parsed from a string that the
  validator accepts. Then \<open>c\<close> is valid, and parsing its canonical string
  (\<open>raw_value\<close>) gives \<open>c\<close> back. Parsing its string form (\<open>__str__\<close>, the display
  name) gives \<open>c\<close> back whenever the main key is not one of the pointer buttons
  \<open>middle\<close>, \<open>mouse4\<close>, \<open>mouse5\<close>.
\<close>

theorem parse_round_trip:
  assumes "validate_hotkey s"
  shows "\<exists>c. parse s = Inr c
           \<and> is_valid c
           \<and> parse (raw_value c) = Inr c
           \<and> (main_key c \<notin> {''middle'', ''mouse4'', ''mouse5''} \<longrightarrow> parse (to_str c) = Inr c)"
proof -
  define raw where "raw = str_strip (str_lower s)"
  define parts where "parts = str_split CHR ''+'' raw"
  define k where "k = last parts"
  have ne: "parts \<noteq> []"
    by (simp add: parts_def str_split_nonempty)
  have key: "k \<in> set VALID_KEYS"
    using validate_hotkey_parts(3) [OF assms] by (simp add: k_def parts_def raw_def)
  have mods_ok: "\<forall>v\<in>set (butlast parts). v \<in> set VALID_MODIFIERS"
    using validate_hotkey_parts(4) [OF assms] by (simp add: parts_def raw_def)
  obtain mods where mods: "parse_modifiers (butlast parts) = Inr mods"
    "map (\<lambda>m. str_lower (modifier_display m)) mods = butlast parts"
    using parse_modifiers_valid [OF mods_ok] by blast
  define c where "c = \<lparr>raw_value = raw,
                       display_name = generate_display_name mods k,
                       modifiers = mods,
                       main_key = k,
                       hotkey_type =
                         (if k \<in> set [''middle'', ''mouse4'', ''mouse5'']
                          then (if mods = [] then MOUSE else COMBINATION)
                          else (if mods = [] then KEYBOARD else COMBINATION))\<rparr>"
  have p: "parse s = Inr c"
    using ne mods(1)
    by (simp add: parse_def Let_def c_def flip: raw_def parts_def k_def)
  have raw_fix: "str_strip (str_lower raw) = raw"
    by (simp add: raw_def str_strip_lower str_strip_idem str_lower_idem)
  have raw_strip: "str_strip raw = raw"
    by (simp add: raw_def str_strip_idem)
  have raw_join: "str_join ''+'' parts = raw"
    by (simp add: parts_def str_join_split)
  have raw_ne: "raw \<noteq> []"
  proof
    assume "raw = []"
    then have "k = []" by (simp add: k_def parts_def)
    then show False using valid_key_nonempty [OF key] by simp
  qed
  have p_raw: "parse raw = Inr c"
    using p parse_cong [of raw s] raw_fix by (simp add: raw_def)
  have v_raw: "validate_hotkey raw"
    using assms validate_hotkey_cong [of raw s] validate_hotkey_parts(1,2) [OF assms]
      raw_ne raw_strip raw_fix
    by (simp add: raw_def)
  have p_disp: "parse (generate_display_name mods k) = Inr c"
    if np: "k \<notin> {''middle'', ''mouse4'', ''mouse5''}"
  proof -
    have kd: "str_lower (main_key_display k) = k"
      using key np by (rule valid_key_display_lower)
    have "str_lower (generate_display_name mods k)
            = str_join ''+'' (map (\<lambda>m. str_lower (modifier_display m)) mods @ [k])"
      by (simp add: generate_display_name_def str_lower_join kd o_def)
         (simp add: str_lower_def lower_char_def)
    also have "\<dots> = str_join ''+'' (butlast parts @ [last parts])"
      by (simp add: mods(2) k_def)
    also have "\<dots> = raw"
      using ne by (simp add: raw_join)
    finally have "str_strip (str_lower (generate_display_name mods k)) = str_strip (str_lower s)"
      using raw_strip by (simp add: raw_def)
    then show ?thesis
      using p parse_cong by metis
  qed
  have fields: "raw_value c = raw" "main_key c = k" "to_str c = generate_display_name mods k"
    by (simp_all add: c_def to_str_def)
  have "is_valid c"
    using v_raw by (simp add: is_valid_def fields)
  moreover have "parse (raw_value c) = Inr c"
    using p_raw by (simp add: fields)
  moreover have "main_key c \<notin> {''middle'', ''mouse4'', ''mouse5''} \<longrightarrow> parse (to_str c) = Inr c"
    using p_disp unfolding fields by blast
  ultimately show ?thesis
    using p by blast
qed

theorem parse_round_trip_witness:
  "parse '' Ctrl+Shift+F5'' =
      Inr \<lparr>raw_value = ''ctrl+shift+f5'', display_name = ''Ctrl+Shift+F5'',
           modifiers = [CTRL, SHIFT], main_key = ''f5'', hotkey_type = COMBINATION\<rparr>
   \<and> parse ''ctrl+shift+f5'' = parse '' Ctrl+Shift+F5''
   \<and> parse ''Ctrl+Shift+F5'' = parse '' Ctrl+Shift+F5''"
proof -
  have v: "validate_hotkey '' Ctrl+Shift+F5''"
    by code_simp
  have p: "parse '' Ctrl+Shift+F5'' =
      Inr \<lparr>raw_value = ''ctrl+shift+f5'', display_name = ''Ctrl+Shift+F5'',
           modifiers = [CTRL, SHIFT], main_key = ''f5'', hotkey_type = COMBINATION\<rparr>"
    by code_simp
  show ?thesis
    using parse_round_trip [OF v] by (simp add: p to_str_def)
qed

text \<open>
  C7 as stated fails for pointer buttons: the string form of \<open>ctrl+mouse5\<close> is
  \<open>Ctrl+Mouse 5\<close>, which parses to a combination whose main key is \<open>mouse 5\<close>.
\<close>

theorem display_name_of_pointer_combo_does_not_parse_back:
  "validate_hotkey ''ctrl+mouse5''
   \<and> parse ''ctrl+mouse5'' = Inr combo_ctrl_mouse5
   \<and> to_str combo_ctrl_mouse5 = ''Ctrl+Mouse 5''
   \<and> parse (to_str combo_ctrl_mouse5) =
        Inr \<lparr>raw_value = ''ctrl+mouse 5'', display_name = ''Ctrl+MOUSE 5'',
             modifiers = [CTRL], main_key = ''mouse 5'', hotkey_type = COMBINATION\<rparr>
   \<and> parse (to_str combo_ctrl_mouse5) \<noteq> Inr combo_ctrl_mouse5"
  by code_simp

end
